theory Spec2Isabelle
  imports Main "HOL-Library.Word"
begin

unbundle bit_operations_syntax

section \<open>The VS1053 Mega Box music player\<close>

text \<open>
  A shallow embedding of \<^verbatim>\<open>VS1053_megabox.ino\<close>. The sketch runs on an 8-bit AVR:
  \<^verbatim>\<open>byte\<close> and \<^verbatim>\<open>uint8_t\<close> are 8-bit words, \<^verbatim>\<open>uint16_t\<close> is a 16-bit word,
  \<^verbatim>\<open>unsigned long\<close> is a 32-bit word. Arithmetic on bytes is done by C++ in
  \<^verbatim>\<open>int\<close> and truncated on assignment; where the intermediate value matters
  (\<^verbatim>\<open>%\<close>, comparisons) the model computes on \<open>unat\<close>.
  LCD output, serial output and delays are left out: no other part of the sketch reads them.
\<close>

type_synonym byte = "8 word"
type_synonym uint16 = "16 word"
type_synonym uint32 = "32 word"

subsection \<open>Compile-time constants\<close>

abbreviation (input) MENU_SIZE :: "'a::numeral" where "MENU_SIZE \<equiv> 9"
abbreviation (input) MAX_BUFF :: "'a::numeral" where "MAX_BUFF \<equiv> 13"
abbreviation (input) LCD_ROWS :: "'a::numeral" where "LCD_ROWS \<equiv> 2"

abbreviation (input) ENTER :: byte where "ENTER \<equiv> 0x23"
abbreviation (input) UP :: byte where "UP \<equiv> 0x12"
abbreviation (input) DOWN :: byte where "DOWN \<equiv> 0x13"
abbreviation (input) RIGHT :: byte where "RIGHT \<equiv> 0x14"
abbreviation (input) LEFT :: byte where "LEFT \<equiv> 0x15"
abbreviation (input) BACK :: byte where "BACK \<equiv> 0x0B"
abbreviation (input) PLAY :: byte where "PLAY \<equiv> 0x32"
abbreviation (input) RESTART :: byte where "RESTART \<equiv> 0x36"
abbreviation (input) INC_SPD :: byte where "INC_SPD \<equiv> 0x34"
abbreviation (input) DEC_SPD :: byte where "DEC_SPD \<equiv> 0x37"
abbreviation (input) MUTE :: byte where "MUTE \<equiv> 0x0D"
abbreviation (input) CH_UP :: byte where "CH_UP \<equiv> 0x21"
abbreviation (input) CH_DOWN :: byte where "CH_DOWN \<equiv> 0x20"
abbreviation (input) INC_VOL :: byte where "INC_VOL \<equiv> 0x10"
abbreviation (input) DEC_VOL :: byte where "DEC_VOL \<equiv> 0x11"
abbreviation (input) NO_VAL :: byte where "NO_VAL \<equiv> 0xFF"

text \<open>
  The two builds of the sketch: \<^verbatim>\<open>ARDUINO_AVR_MEGA2560\<close> defined (four switches, a rotary
  encoder, 1250 playlist slots) or not (two switches, 75 slots).
\<close>

datatype board = Uno | Mega

fun MAX_INDEX :: "board \<Rightarrow> nat" where
  "MAX_INDEX Mega = 1250"
| "MAX_INDEX Uno = 75"

fun sw_loc :: "board \<Rightarrow> nat list" where
  "sw_loc Mega = [4, 5, 14, 15]"
| "sw_loc Uno = [4, 5]"

fun sw_val :: "board \<Rightarrow> byte list" where
  "sw_val Mega = [ENTER, DOWN, UP, BACK]"
| "sw_val Uno = [ENTER, DOWN]"

subsection \<open>Input: front-panel switches and the infrared remote\<close>

text \<open>
  What one poll of the inputs can observe: the pins that read \<^verbatim>\<open>LOW\<close>, and the raw
  value of an infrared code when \<^verbatim>\<open>IR.decode\<close> has one.
\<close>

record input =
  low_pins :: "nat list"
  ir :: "uint32 option"

text \<open>\<^verbatim>\<open>getSwitches\<close>: the value of the first switch that reads \<^verbatim>\<open>LOW\<close>, else \<^verbatim>\<open>NO_VAL\<close>.\<close>

fun scan_switches :: "nat list \<Rightarrow> (nat \<times> byte) list \<Rightarrow> byte" where
  "scan_switches low [] = NO_VAL"
| "scan_switches low ((pin, v) # rest) =
     (if pin \<in> set low then v else scan_switches low rest)"

definition getSwitches :: "board \<Rightarrow> input \<Rightarrow> byte" where
  "getSwitches b i = scan_switches (low_pins i) (zip (sw_loc b) (sw_val b))"

text \<open>
  \<^verbatim>\<open>getcode()\<close> is \<^verbatim>\<open>(IRcode.value ^ 0x800) & IRcode.value\<close>, stored into a byte by every
  caller.
\<close>

definition getcode :: "uint32 \<Rightarrow> byte" where
  "getcode v = ucast ((v XOR 0x800) AND v)"

text \<open>\<^verbatim>\<open>getRemote(&val)\<close> overwrites \<^verbatim>\<open>val\<close> when a code was decoded.\<close>

definition getRemote :: "input \<Rightarrow> byte \<Rightarrow> byte" where
  "getRemote i val = (case ir i of Some v \<Rightarrow> getcode v | None \<Rightarrow> val)"

text \<open>The pair \<^verbatim>\<open>cur = getSwitches(); getRemote(&cur);\<close> used by every command loop.\<close>

definition poll_command :: "board \<Rightarrow> input \<Rightarrow> byte" where
  "poll_command b i = getRemote i (getSwitches b i)"

text \<open>The test \<^verbatim>\<open>IR.decode(&IRcode) || getSwitches() != NO_VAL\<close>.\<close>

definition any_input :: "board \<Rightarrow> input \<Rightarrow> bool" where
  "any_input b i \<longleftrightarrow> ir i \<noteq> None \<or> getSwitches b i \<noteq> NO_VAL"

subsection \<open>The menu\<close>

text \<open>
  The menu cursor \<^verbatim>\<open>counter\<close> and, as an observation, the arguments of the calls of
  \<^verbatim>\<open>parseMenu\<close> in order.
\<close>

record menu =
  counter :: byte
  dispatched :: "int list"

text \<open>
  \<^verbatim>\<open>parseMenu(count)\<close> runs the action bound to \<open>count\<close>. On the menu state it has one
  effect only: playlist playback (case 0) assigns \<^verbatim>\<open>counter = 0\<close> when it is left with
  \<^verbatim>\<open>BACK\<close> (the \<^verbatim>\<open>BACK\<close> branch of \<^verbatim>\<open>play_commands\<close>); no other action assigns
  \<^verbatim>\<open>counter\<close>. The flag \<open>back\<close> says whether the playback that ran was left that way.
\<close>

definition parseMenu :: "int \<Rightarrow> bool \<Rightarrow> menu \<Rightarrow> menu" where
  "parseMenu count back s =
     (let s1 = s\<lparr>dispatched := dispatched s @ [count]\<rparr>
      in if count = 0 \<and> back then s1\<lparr>counter := 0\<rparr> else s1)"

text \<open>
  \<^verbatim>\<open>navMenu(val)\<close>. The digit cases assign \<^verbatim>\<open>counter = val % MENU_SIZE\<close> and fall through
  into the \<^verbatim>\<open>ENTER\<close> case, which calls \<^verbatim>\<open>parseMenu(counter)\<close> and breaks.
\<close>

definition navMenu :: "byte \<Rightarrow> bool \<Rightarrow> menu \<Rightarrow> menu" where
  "navMenu val back s =
     (if val \<le> 8 then
        (let s1 = s\<lparr>counter := val mod MENU_SIZE\<rparr>
         in parseMenu (uint (counter s1)) back s1)
      else if val = ENTER then parseMenu (uint (counter s)) back s
      else if val = UP \<or> val = CH_UP then
        s\<lparr>counter := (if counter s \<noteq> 0 then counter s - 1 else MENU_SIZE - 1)\<rparr>
      else if val = LEFT then
        (if counter s \<ge> LCD_ROWS then s\<lparr>counter := counter s - LCD_ROWS\<rparr>
         else s\<lparr>counter := MENU_SIZE - (LCD_ROWS - counter s)\<rparr>)
      else if val = RIGHT then
        s\<lparr>counter := word_of_nat ((unat (counter s) + LCD_ROWS) mod MENU_SIZE)\<rparr>
      else if val = DOWN \<or> val = CH_DOWN then
        (if counter s + 1 = MENU_SIZE then s\<lparr>counter := 0\<rparr>
         else s\<lparr>counter := counter s + 1\<rparr>)
      else s\<lparr>counter := 0\<rparr>)"

subsection \<open>The codec as the player sees it\<close>

text \<open>
  Modelled from the spec: the SFEMP3Shield library is not part of the sketch. Of its
  playing states only \<^verbatim>\<open>playback\<close> and \<^verbatim>\<open>paused_playback\<close> are tested by the sketch;
  \<open>ready\<close> stands for every state in which \<^verbatim>\<open>isPlaying()\<close> is false.
\<close>

datatype state_m = ready | playback | paused_playback

text \<open>
  The globals the playback functions use, on top of the menu state: the play cursor, the
  playlist, the \<^verbatim>\<open>static\<close> locals \<^verbatim>\<open>old_vol\<close> and \<^verbatim>\<open>e_lastpos\<close> of
  \<^verbatim>\<open>play_commands\<close>, and the codec registers the sketch reads back. \<open>opened\<close> lists the
  directory positions given to \<^verbatim>\<open>file.open\<close> by \<^verbatim>\<open>play\<close>, in order.
  \<^verbatim>\<open>playnum\<close> and \<^verbatim>\<open>playlen\<close> are C \<^verbatim>\<open>int\<close>s; they stay between 0 and
  \<open>MAX_INDEX + 1\<close>, far from the 16-bit range, and are modelled as integers.
\<close>

record player = menu +
  result :: byte
  playnum :: int
  playlen :: int
  playlist :: "uint16 list"
  old_vol :: byte
  e_lastpos :: int
  SCI_VOL :: uint16
  playing_state :: state_m
  play_speed :: uint16
  opened :: "uint16 list"

text \<open>
  Modelled from the spec: volume get/set is a paired byte. \<^verbatim>\<open>setVolume(left, right)\<close>
  writes the left level to the high byte and the right level to the low byte of the
  volume register, \<^verbatim>\<open>getVolume()\<close> reads the register, and \<^verbatim>\<open>byte[1]\<close> of the
  \<^verbatim>\<open>twobyte\<close> union is the high byte of its \<^verbatim>\<open>word\<close> on the little-endian AVR.
\<close>

definition setVolume :: "byte \<Rightarrow> byte \<Rightarrow> player \<Rightarrow> player" where
  "setVolume left right s = s\<lparr>SCI_VOL := push_bit 8 (ucast left) OR ucast right\<rparr>"

definition getVolume :: "player \<Rightarrow> uint16" where
  "getVolume s = SCI_VOL s"

definition byte1 :: "uint16 \<Rightarrow> byte" where
  "byte1 w = ucast (drop_bit 8 w)"

definition byte0 :: "uint16 \<Rightarrow> byte" where
  "byte0 w = ucast w"

text \<open>Modelled from the spec: \<^verbatim>\<open>isPlaying\<close>, \<^verbatim>\<open>stopTrack\<close>, \<^verbatim>\<open>pauseMusic\<close>, \<^verbatim>\<open>resumeMusic\<close>.\<close>

definition isPlaying :: "player \<Rightarrow> bool" where
  "isPlaying s \<longleftrightarrow> playing_state s = playback \<or> playing_state s = paused_playback"

definition stopTrack :: "player \<Rightarrow> player" where
  "stopTrack s = s\<lparr>playing_state := ready\<rparr>"

subsection \<open>Volume\<close>

text \<open>\<^verbatim>\<open>adjustVolume(increase)\<close>: the arithmetic is on \<^verbatim>\<open>mp3_vol.byte[1]\<close>, a \<^verbatim>\<open>uint8_t\<close>.\<close>

definition adjustVolume :: "bool \<Rightarrow> player \<Rightarrow> player" where
  "adjustVolume increase s =
     (let v = byte1 (getVolume s);
          v' = (if increase then (if v \<le> 2 then 2 else v - 2)
                else (if v \<ge> 254 then 254 else v + 2))
      in setVolume v' v' s)"

subsection \<open>Commands while a track plays\<close>

text \<open>
  The body of the \<^verbatim>\<open>switch (command)\<close> of \<^verbatim>\<open>play_commands\<close>, on the pair of the local
  \<^verbatim>\<open>retval\<close> and the globals.
\<close>

definition play_switch :: "byte \<Rightarrow> bool \<times> player \<Rightarrow> bool \<times> player" where
  "play_switch command rs =
     (let retval = fst rs; s = snd rs in
      if command = RESTART then (True, stopTrack s)
      else if command = CH_UP \<or> command = UP then
        (True, stopTrack (if playnum s \<noteq> 0 then s\<lparr>playnum := playnum s - 1\<rparr>
                          else s\<lparr>playnum := playlen s - 1\<rparr>))
      else if command = CH_DOWN \<or> command = DOWN then
        (True, stopTrack (s\<lparr>playnum := playnum s + 1\<rparr>))
      else if command = PLAY \<or> command = ENTER then
        (if playing_state s = playback then (retval, s\<lparr>playing_state := paused_playback\<rparr>)
         else if playing_state s = paused_playback then (retval, s\<lparr>playing_state := playback\<rparr>)
         else (retval, s))
      else if command = DEC_SPD \<or> command = INC_SPD then
        (let playspeed = play_speed s;
             playspeed' = (if command = INC_SPD
                           then (if playspeed \<ge> 254 then 5 else playspeed + 1)
                           else if playspeed \<noteq> 0 then playspeed - 1 else playspeed)
         in (retval, s\<lparr>play_speed := playspeed'\<rparr>))
      else if command = DEC_VOL \<or> command = INC_VOL then
        (retval, adjustVolume (command = INC_VOL) s)
      else if command = MUTE then
        (let v = byte1 (getVolume s) in
         if v < 254 then (retval, setVolume 254 254 (s\<lparr>old_vol := v\<rparr>))
         else if old_vol s \<ge> 2 then (retval, (setVolume (old_vol s) (old_vol s) s)\<lparr>old_vol := 0\<rparr>)
         else (retval, s))
      else if command = BACK then
        (retval, (stopTrack s)\<lparr>playnum := playlen s, counter := 0\<rparr>)
      else (retval, s))"

text \<open>
  The player as \<^verbatim>\<open>setup()\<close> leaves it, before a playlist is built:
  \<^verbatim>\<open>MP3player.setVolume(80, 80)\<close>, nothing playing, \<^verbatim>\<open>e_lastpos = -1\<close>.
\<close>

definition player0 :: player where
  "player0 = \<lparr>counter = 0, dispatched = [], result = 0, playnum = 0, playlen = 0,
     playlist = [], old_vol = 0, e_lastpos = - 1, SCI_VOL = 0x5050,
     playing_state = ready, play_speed = 1, opened = []\<rparr>"

subsection \<open>Playing the playlist\<close>

text \<open>
  What one pass of the loop \<^verbatim>\<open>while (MP3player.isPlaying())\<close> of \<^verbatim>\<open>play_commands\<close>
  observes: whether the track has run to its end by itself since the last pass (then
  \<^verbatim>\<open>isPlaying()\<close> is false), the position of the rotary encoder (read on the Mega only)
  and the inputs.
\<close>

record poll =
  track_over :: bool
  enc_pos :: int
  inp :: input

text \<open>
  A loop of the sketch that waits for the outside world runs on a list of observations.
  When the list ends while the loop is still waiting, the run is \<open>Blocked\<close>: the model
  does not invent a result. \<open>OutOfBounds\<close> is a read of \<^verbatim>\<open>playlist\<close> outside the array.
\<close>

datatype fault = Blocked | OutOfBounds

text \<open>The encoder block of \<^verbatim>\<open>play_commands\<close>, compiled on the Mega only.\<close>

definition encoder :: "board \<Rightarrow> int \<Rightarrow> player \<Rightarrow> player" where
  "encoder b e_newpos s =
     (case b of
        Uno \<Rightarrow> s
      | Mega \<Rightarrow>
          if e_newpos \<noteq> e_lastpos s
          then (adjustVolume (e_newpos > e_lastpos s) s)\<lparr>e_lastpos := e_newpos\<rparr>
          else s)"

text \<open>
  \<^verbatim>\<open>play_commands()\<close>, started with \<^verbatim>\<open>retval = false\<close>; it returns \<^verbatim>\<open>retval\<close>.
\<close>

fun play_commands_loop :: "board \<Rightarrow> poll list \<Rightarrow> bool \<times> player \<Rightarrow> fault + bool \<times> player" where
  "play_commands_loop b [] (retval, s) =
     (if isPlaying s then Inl Blocked else Inr (retval, s))"
| "play_commands_loop b (p # ps) (retval, s) =
     (if \<not> isPlaying s then Inr (retval, s)
      else if track_over p then Inr (retval, s\<lparr>playing_state := ready\<rparr>)
      else play_commands_loop b ps
             (play_switch (poll_command b (inp p)) (retval, encoder b (enc_pos p) s)))"

definition play_commands :: "board \<Rightarrow> poll list \<Rightarrow> player \<Rightarrow> fault + bool \<times> player" where
  "play_commands b ps s = play_commands_loop b ps (False, s)"

text \<open>
  What one pass of the outer loop of \<^verbatim>\<open>play()\<close> meets: whether \<^verbatim>\<open>file.open\<close> and
  \<^verbatim>\<open>file.getFilename\<close> succeed, what \<^verbatim>\<open>MP3player.playMP3\<close> returns, and the polls seen
  while the track plays.
\<close>

record attempt =
  open_ok :: bool
  fname :: "string option"
  play_result :: byte
  polls :: "poll list"

text \<open>
  The loop \<^verbatim>\<open>while (playnum < playlen)\<close> of \<^verbatim>\<open>play()\<close> with its local \<^verbatim>\<open>skipped\<close>.
  A successful \<^verbatim>\<open>playMP3\<close> starts playback.
\<close>

fun play_loop :: "board \<Rightarrow> attempt list \<Rightarrow> bool \<Rightarrow> player \<Rightarrow> fault + player" where
  "play_loop b [] skipped s = (if playnum s < playlen s then Inl Blocked else Inr s)"
| "play_loop b (a # rest) skipped s =
     (if playnum s < playlen s then
        (let s1 = (if \<not> skipped then s\<lparr>playnum := playnum s + 1\<rparr> else s) in
         if playnum s1 < 0 \<or> int (length (playlist s1)) \<le> playnum s1 then Inl OutOfBounds
         else
           (let s2 = s1\<lparr>opened := opened s1 @ [playlist s1 ! nat (playnum s1)]\<rparr> in
            if \<not> open_ok a then play_loop b rest False s2
            else case fname a of
                None \<Rightarrow> play_loop b rest False s2
              | Some filename \<Rightarrow>
                  (let s3 = s2\<lparr>result := play_result a\<rparr> in
                   if result s3 \<noteq> 0
                   then play_loop b rest False (s3\<lparr>playnum := playnum s3 + 1\<rparr>)
                   else case play_commands b (polls a) (s3\<lparr>playing_state := playback\<rparr>) of
                       Inl e \<Rightarrow> Inl e
                     | Inr (skipped', s4) \<Rightarrow> play_loop b rest skipped' s4)))
      else Inr s)"

definition play :: "board \<Rightarrow> attempt list \<Rightarrow> player \<Rightarrow> fault + player" where
  "play b env s = play_loop b env True (s\<lparr>playnum := 0\<rparr>)"

subsection \<open>A playlist of three tracks\<close>

text \<open>
  The Uno build with three audio files at directory positions 10, 11 and 12: the array
  \<^verbatim>\<open>playlist\<close> has \<open>MAX_INDEX\<close> = 75 slots, zeroed beyond \<^verbatim>\<open>playlen\<close>.
\<close>

definition three_tracks :: player where
  "three_tracks = player0\<lparr>playlen := 3, playlist := [10, 11, 12] @ replicate 72 0\<rparr>"

definition no_input :: input where
  "no_input = \<lparr>low_pins = [], ir = None\<rparr>"

text \<open>A file the codec refuses to start (\<^verbatim>\<open>playMP3\<close> returns 2).\<close>

definition fails_to_start :: attempt where
  "fails_to_start = \<lparr>open_ok = True, fname = Some ''A.MP3'', play_result = 2, polls = []\<rparr>"

text \<open>A file that plays to its end with no input.\<close>

definition plays_to_end :: attempt where
  "plays_to_end = \<lparr>open_ok = True, fname = Some ''B.MP3'', play_result = 0,
     polls = [\<lparr>track_over = True, enc_pos = 0, inp = no_input\<rparr>]\<rparr>"

text \<open>A directory position \<^verbatim>\<open>file.open\<close> cannot open.\<close>

definition cannot_open :: attempt where
  "cannot_open = \<lparr>open_ok = False, fname = None, play_result = 0, polls = []\<rparr>"

text \<open>A file during which switch 2 (\<^verbatim>\<open>DOWN\<close>) is pressed at the first poll.\<close>

definition skipped_forward :: attempt where
  "skipped_forward = \<lparr>open_ok = True, fname = Some ''C.MP3'', play_result = 0,
     polls = [\<lparr>track_over = False, enc_pos = 0, inp = \<lparr>low_pins = [5], ir = None\<rparr>\<rparr>]\<rparr>"

subsection \<open>Building the playlist\<close>

text \<open>
  Modelled from the spec: the storage volume offers directory traversal
  (\<^verbatim>\<open>rewind\<close>, \<^verbatim>\<open>openNext\<close>), an entry's filename and its directory position. A
  directory is a sequence of 32-byte slots. \<^verbatim>\<open>openNext\<close> reads on from the cursor, passes
  over slots that hold no file (\<open>Skipped\<close>: deleted entries, dot entries, long-name and
  label entries), stops without a file at a never-used slot (\<open>Free\<close>) or at the end, and
  otherwise opens the entry and leaves the cursor behind its slot. \<^verbatim>\<open>getFilename\<close> gives
  the name of the open file, or fails (\<open>None\<close>).
\<close>

datatype slot = Free | Skipped | Entry "string option"

fun openNext :: "slot list \<Rightarrow> nat \<Rightarrow> (string option \<times> slot list \<times> nat) option" where
  "openNext [] curPosition = None"
| "openNext (Free # rest) curPosition = None"
| "openNext (Skipped # rest) curPosition = openNext rest (curPosition + 32)"
| "openNext (Entry filename # rest) curPosition = Some (filename, rest, curPosition + 32)"

text \<open>
  The loop of \<^verbatim>\<open>createPlaylist()\<close>: \<open>dir\<close> is what is left of the directory from the
  cursor on, \<open>curPosition\<close> the cursor in bytes. \<^verbatim>\<open>isFnMusic\<close> is a function of the codec
  library and a parameter here. The stored value \<^verbatim>\<open>(curPosition() / 32) - 1\<close> is truncated
  to 16 bits by the assignment; the cursor is at least 32 after a successful
  \<^verbatim>\<open>openNext\<close>.
\<close>

function createPlaylist_loop ::
  "nat \<Rightarrow> (string \<Rightarrow> bool) \<Rightarrow> slot list \<Rightarrow> nat \<Rightarrow> player \<Rightarrow> player" where
  "createPlaylist_loop max_index isFnMusic dir curPosition s =
     (if playlen s < int max_index then
        (case openNext dir curPosition of
           None \<Rightarrow> s
         | Some (got, rest, curPosition') \<Rightarrow>
             createPlaylist_loop max_index isFnMusic rest curPosition'
               (case got of
                  None \<Rightarrow> s
                | Some filename \<Rightarrow>
                    if isFnMusic filename
                    then s\<lparr>playlist := (playlist s)[nat (playlen s) :=
                                          word_of_nat (curPosition' div 32 - 1)],
                           playlen := playlen s + 1\<rparr>
                    else s))
      else s)"
  by pat_completeness auto
termination
proof -
  have shorter: "length rest < length dir"
    if "openNext dir pos = Some (filename, rest, pos')" for dir pos filename rest pos'
    using that by (induction dir pos rule: openNext.induct) auto
  show ?thesis
    by (relation "measure (\<lambda>(max_index, isFnMusic, dir, curPosition, s). length dir)")
       (auto dest: shorter)
qed

text \<open>
  \<^verbatim>\<open>createPlaylist()\<close>: zero the length and the whole array, rewind the directory, scan.
\<close>

definition createPlaylist :: "board \<Rightarrow> (string \<Rightarrow> bool) \<Rightarrow> slot list \<Rightarrow> player \<Rightarrow> player" where
  "createPlaylist b isFnMusic dir s =
     createPlaylist_loop (MAX_INDEX b) isFnMusic dir 0
       (s\<lparr>playlen := 0, playlist := replicate (MAX_INDEX b) 0\<rparr>)"

text \<open>
  A small volume: a deleted entry, two audio files among other files, and an audio file
  behind the first never-used slot, with an \<^verbatim>\<open>isFnMusic\<close> that accepts the three audio
  names.
\<close>

definition small_volume :: "slot list" where
  "small_volume = [Skipped, Entry (Some ''A.MP3''), Entry (Some ''B.TXT''), Entry None,
     Entry (Some ''C.OGG''), Free, Entry (Some ''D.MP3'')]"

definition audio_names :: "string \<Rightarrow> bool" where
  "audio_names filename \<longleftrightarrow> filename \<in> {''A.MP3'', ''C.OGG'', ''D.MP3''}"

text \<open>
  For the proofs: \<open>listed isFnMusic dir w\<close> says that \<open>w\<close> is the (16-bit) position of
  an entry of \<open>dir\<close> whose name \<^verbatim>\<open>isFnMusic\<close> accepts, and \<open>playlist_ok\<close> is the loop
  invariant of \<^verbatim>\<open>createPlaylist\<close> over the part of the directory read so far.
\<close>

definition listed :: "(string \<Rightarrow> bool) \<Rightarrow> slot list \<Rightarrow> uint16 \<Rightarrow> bool" where
  "listed isFnMusic dir w \<longleftrightarrow>
     (\<exists>k < length dir. \<exists>filename. dir ! k = Entry (Some filename) \<and> isFnMusic filename
        \<and> w = word_of_nat k)"

definition playlist_ok :: "nat \<Rightarrow> (string \<Rightarrow> bool) \<Rightarrow> slot list \<Rightarrow> player \<Rightarrow> bool" where
  "playlist_ok max_index isFnMusic dir s \<longleftrightarrow>
     0 \<le> playlen s \<and> playlen s \<le> int max_index \<and> length (playlist s) = max_index
     \<and> (\<forall>i < nat (playlen s). listed isFnMusic dir (playlist s ! i))"

subsection \<open>Playing a track by number\<close>

text \<open>
  The first loop of \<^verbatim>\<open>playTrack()\<close>, \<^verbatim>\<open>while (cnt < 3)\<close>, on the list of the inputs it
  polls. \<^verbatim>\<open>IRcode\<close> is the global that \<^verbatim>\<open>IR.decode\<close> fills; it keeps the last code
  decoded. The result is \<^verbatim>\<open>tracknum\<close>, \<^verbatim>\<open>IRcode\<close> and the inputs not yet read.
\<close>

fun collect_tracknum ::
  "board \<Rightarrow> input list \<Rightarrow> int \<Rightarrow> int \<Rightarrow> uint32 \<Rightarrow> fault + int \<times> uint32 \<times> input list" where
  "collect_tracknum b [] cnt tracknum IRcode =
     (if cnt < 3 then Inl Blocked else Inr (tracknum, IRcode, []))"
| "collect_tracknum b (i # rest) cnt tracknum IRcode =
     (if cnt < 3 then
        (let decoded_val = poll_command b i;
             IRcode' = (case ir i of Some v \<Rightarrow> v | None \<Rightarrow> IRcode)
         in if decoded_val \<le> 9 then
              (if tracknum > 99 then collect_tracknum b rest 3 tracknum IRcode'
               else collect_tracknum b rest (cnt + 1) (tracknum * 10 + uint decoded_val) IRcode')
            else if decoded_val = DOWN \<or> decoded_val = RIGHT then
              collect_tracknum b rest cnt (if tracknum > 999 then 0 else tracknum + 1) IRcode'
            else if decoded_val = ENTER then Inr (tracknum, IRcode', rest)
            else collect_tracknum b rest cnt tracknum IRcode')
      else Inr (tracknum, IRcode, i # rest))"

text \<open>
  The loop \<^verbatim>\<open>while (true)\<close> that waits for
  \<^verbatim>\<open>IR.decode(&IRcode) || (decoded_val = getSwitches()) != NO_VAL\<close>.
\<close>

fun wait_input :: "board \<Rightarrow> input list \<Rightarrow> uint32 \<Rightarrow> fault + uint32 \<times> input list" where
  "wait_input b [] IRcode = Inl Blocked"
| "wait_input b (i # rest) IRcode =
     (case ir i of
        Some v \<Rightarrow> Inr (v, rest)
      | None \<Rightarrow> if getSwitches b i \<noteq> NO_VAL then Inr (IRcode, rest)
                else wait_input b rest IRcode)"

text \<open>
  \<^verbatim>\<open>snprintf(trackname, MAX_BUFF, "track%03d.%s", tracknum, filetype)\<close>: a decimal number
  padded with zeros to three characters, and at most \<open>MAX_BUFF - 1\<close> characters kept.
\<close>

fun decimal :: "nat \<Rightarrow> string" where
  "decimal n = (if n < 10 then [char_of (48 + n)] else decimal (n div 10) @ [char_of (48 + n mod 10)])"

declare decimal.simps [simp del]

definition zero_pad :: "nat \<Rightarrow> string \<Rightarrow> string" where
  "zero_pad width digits = replicate (width - length digits) CHR ''0'' @ digits"

definition format_03d :: "int \<Rightarrow> string" where
  "format_03d n = (if n < 0 then CHR ''-'' # zero_pad 2 (decimal (nat (- n)))
                   else zero_pad 3 (decimal (nat n)))"

definition snprintf_track :: "int \<Rightarrow> string \<Rightarrow> string" where
  "snprintf_track tracknum filetype =
     take (MAX_BUFF - 1) (''track'' @ format_03d tracknum @ ''.'' @ filetype)"

text \<open>
  \<^verbatim>\<open>playTrack()\<close> up to its call \<^verbatim>\<open>MP3player.playMP3(trackname, 0)\<close>: the result is
  \<^verbatim>\<open>trackname\<close>. What follows in the sketch plays the file until it ends or an input
  stops it.
\<close>

definition playTrack :: "board \<Rightarrow> input list \<Rightarrow> uint32 \<Rightarrow> fault + string" where
  "playTrack b inputs IRcode =
     (case collect_tracknum b inputs 0 0 IRcode of
        Inl e \<Rightarrow> Inl e
      | Inr (tracknum, IRcode1, rest) \<Rightarrow>
          (let tracknum' = (if tracknum = 0 then 1 else tracknum) in
           case wait_input b rest IRcode1 of
             Inl e \<Rightarrow> Inl e
           | Inr (IRcode2, rest') \<Rightarrow>
               (let decoded_val = getcode IRcode2;
                    filetype = (if decoded_val = RIGHT \<or> decoded_val = DOWN then ''ogg'' else ''mp3'')
                in Inr (snprintf_track tracknum' filetype))))"

text \<open>Switch 1 (\<^verbatim>\<open>ENTER\<close>) held, and switch 2 (\<^verbatim>\<open>DOWN\<close>) held, with no infrared code.\<close>

definition enter_held :: input where
  "enter_held = \<lparr>low_pins = [4], ir = None\<rparr>"

definition down_held :: input where
  "down_held = \<lparr>low_pins = [5], ir = None\<rparr>"

subsection \<open>Recording: the drain loop\<close>

text \<open>
  The part of \<^verbatim>\<open>record()\<close> from \<^verbatim>\<open>timer = millis()\<close> on: the loop
  \<^verbatim>\<open>while (rec_state < 3)\<close> and the closing of the file. The state is the global
  \<^verbatim>\<open>rec_state\<close>, the bytes written to the file so far, whether the file is open, the
  number of words read from \<^verbatim>\<open>SCI_HDAT0\<close> so far, and the number of times the stop
  request (\<^verbatim>\<open>SCI_AICTRL3 = 1\<close>) has been written to the codec.
\<close>

record recorder =
  rec_state :: byte
  written :: "byte list"
  file_open :: bool
  consumed :: nat
  stop_requests :: nat

text \<open>
  What one pass of the loop reads from outside: the inputs, \<^verbatim>\<open>SCI_HDAT1\<close>, then (only in
  state 1) \<^verbatim>\<open>SCI_AICTRL3\<close> and (only when bit 1 of it is set) \<^verbatim>\<open>SCI_HDAT1\<close> again, and in
  the final block \<^verbatim>\<open>SCI_AICTRL3\<close> twice. The sample words read from \<^verbatim>\<open>SCI_HDAT0\<close> form
  one stream for the whole session: \<open>smp k\<close> is the \<open>k\<close>-th word read.
\<close>

record drain_obs =
  panel :: input
  hdat1 :: uint16
  aictrl3 :: uint16
  hdat1_again :: uint16
  aictrl3_first :: uint16
  aictrl3_second :: uint16

text \<open>
  One group of the transfer: \<open>wordsToWrite\<close> words are read into \<^verbatim>\<open>wbuff\<close>, high byte
  first, and \<^verbatim>\<open>file.write(wbuff, 2 * wordsToWrite)\<close> appends them to the file.
\<close>

definition words_bytes :: "(nat \<Rightarrow> uint16) \<Rightarrow> nat \<Rightarrow> nat \<Rightarrow> byte list" where
  "words_bytes smp k n = concat (map (\<lambda>j. [byte1 (smp (k + j)), byte0 (smp (k + j))]) [0..<n])"

definition read_group :: "(nat \<Rightarrow> uint16) \<Rightarrow> nat \<Rightarrow> recorder \<Rightarrow> recorder" where
  "read_group smp wordsToWrite s =
     s\<lparr>written := written s @ words_bytes smp (consumed s) wordsToWrite,
       consumed := consumed s + wordsToWrite\<rparr>"

text \<open>
  The last word of the file: its high byte is always written, its low byte only when bit 2
  of the second read of \<^verbatim>\<open>SCI_AICTRL3\<close> is clear.
\<close>

definition last_word :: "drain_obs \<Rightarrow> (nat \<Rightarrow> uint16) \<Rightarrow> recorder \<Rightarrow> recorder" where
  "last_word ob smp s =
     (let data = smp (consumed s);
          s1 = s\<lparr>rec_state := 3, consumed := consumed s + 1,
                 written := written s @ [byte1 data]\<rparr>
      in if aictrl3_second ob AND 4 = 0 then s1\<lparr>written := written s1 @ [byte0 data]\<rparr>
         else s1)"

text \<open>
  The body of the inner loop: one block. \<^verbatim>\<open>wordsToRead\<close> and \<^verbatim>\<open>wordsWaiting\<close> are
  \<^verbatim>\<open>uint16_t\<close>, \<^verbatim>\<open>wordsToWrite\<close> is \<^verbatim>\<open>uint8_t\<close>; the block is transferred in two
  groups of \<^verbatim>\<open>wordsToWrite\<close> words. The result is the new \<^verbatim>\<open>wordsWaiting\<close> and the new
  state.
\<close>

definition drain_block ::
  "drain_obs \<Rightarrow> (nat \<Rightarrow> uint16) \<Rightarrow> uint16 \<Rightarrow> recorder \<Rightarrow> uint16 \<times> recorder" where
  "drain_block ob smp wordsWaiting s =
     (let wordsToRead0 = min wordsWaiting 256;
          wordsWaiting' = wordsWaiting - wordsToRead0;
          wordsToRead = (if rec_state s = 2 \<and> wordsWaiting' = 0
                         then wordsToRead0 - 1 else wordsToRead0);
          wordsToWrite = (ucast (wordsToRead div 2) :: byte);
          s1 = read_group smp (unat wordsToWrite) (read_group smp (unat wordsToWrite) s)
      in (wordsWaiting', if wordsToRead < 256 then last_word ob smp s1 else s1))"

text \<open>The inner loop \<^verbatim>\<open>while (wordsWaiting >= ((rec_state < 2) ? 256 : 1))\<close>.\<close>

function drain_blocks :: "drain_obs \<Rightarrow> (nat \<Rightarrow> uint16) \<Rightarrow> uint16 \<Rightarrow> recorder \<Rightarrow> recorder" where
  "drain_blocks ob smp wordsWaiting s =
     (if wordsWaiting \<ge> (if rec_state s < 2 then 256 else 1)
      then drain_blocks ob smp (fst (drain_block ob smp wordsWaiting s))
             (snd (drain_block ob smp wordsWaiting s))
      else s)"
  by pat_completeness auto
termination
proof -
  have less: "unat (fst (drain_block ob smp w s)) < unat w"
    if "w \<ge> (if c then 256 else 1)" for w :: uint16 and c ob smp s
  proof -
    have "min w 256 \<le> w" by simp
    then have "unat (w - min w 256) = unat w - unat (min w 256)" by (rule unat_sub)
    moreover have "0 < unat (min w 256)"
      using that by (auto simp: min_def word_le_nat_alt split: if_splits)
    moreover have "0 < unat w"
      using that by (auto simp: word_le_nat_alt split: if_splits)
    ultimately show ?thesis by (simp add: drain_block_def Let_def)
  qed
  show ?thesis
    by (relation "measure (\<lambda>(ob, smp, wordsWaiting, s). unat wordsWaiting)")
       (auto simp: case_prod_unfold intro: less)
qed

declare drain_blocks.simps [simp del]

text \<open>One pass of the loop \<^verbatim>\<open>while (rec_state < 3)\<close>.\<close>

definition drain_pass :: "board \<Rightarrow> (nat \<Rightarrow> uint16) \<Rightarrow> drain_obs \<Rightarrow> recorder \<Rightarrow> recorder" where
  "drain_pass b smp ob s =
     (let s1 = (if any_input b (panel ob) \<and> rec_state s = 0
                then s\<lparr>rec_state := 1, stop_requests := stop_requests s + 1\<rparr> else s);
          stopped = (rec_state s1 = 1 \<and> aictrl3 ob AND 2 \<noteq> 0);
          s2 = (if stopped then s1\<lparr>rec_state := 2\<rparr> else s1);
          wordsWaiting = (if stopped then hdat1_again ob else hdat1 ob)
      in drain_blocks ob smp wordsWaiting s2)"

text \<open>
  The loop. The pass numbered \<open>n\<close> observes \<open>obs n\<close>; a loop that never reaches state 3
  never returns, which is the value \<open>None\<close>.
\<close>

partial_function (option) record_loop ::
  "board \<Rightarrow> (nat \<Rightarrow> uint16) \<Rightarrow> (nat \<Rightarrow> drain_obs) \<Rightarrow> nat \<Rightarrow> recorder \<Rightarrow> recorder option" where
  "record_loop b smp obs n s =
     (if rec_state s < 3 then record_loop b smp obs (n + 1) (drain_pass b smp (obs n) s)
      else Some s)"


text \<open>The state after the first \<open>n\<close> passes of the loop (fewer when it has ended before).\<close>

fun after_passes ::
  "board \<Rightarrow> (nat \<Rightarrow> uint16) \<Rightarrow> (nat \<Rightarrow> drain_obs) \<Rightarrow> nat \<Rightarrow> recorder \<Rightarrow> recorder" where
  "after_passes b smp obs 0 s = s"
| "after_passes b smp obs (Suc n) s =
     (let t = after_passes b smp obs n s
      in if rec_state t < 3 then drain_pass b smp (obs n) t else t)"

text \<open>A fresh session: the file just opened, nothing read or written.\<close>

definition recorder0 :: recorder where
  "recorder0 = \<lparr>rec_state = 0, written = [], file_open = True, consumed = 0, stop_requests = 0\<rparr>"

text \<open>
  Passes for examples: one with no input and nothing waiting; one in which \<^verbatim>\<open>ENTER\<close> is
  held, the codec reports that it has stopped (bit 1 of \<^verbatim>\<open>SCI_AICTRL3\<close>) with one word
  left and sets bit 2 in the final status; and one like it but with no word left. The
  session has three quiet passes and then the stop; the sample words are
  \<open>0x1100, 0x1101, \<dots>\<close>.
\<close>

definition quiet_pass :: drain_obs where
  "quiet_pass = \<lparr>panel = no_input, hdat1 = 0, aictrl3 = 0, hdat1_again = 0,
     aictrl3_first = 0, aictrl3_second = 0\<rparr>"

definition stop_pass :: drain_obs where
  "stop_pass = \<lparr>panel = enter_held, hdat1 = 0, aictrl3 = 2, hdat1_again = 1,
     aictrl3_first = 0, aictrl3_second = 4\<rparr>"


definition session :: "nat \<Rightarrow> drain_obs" where
  "session n = (if n < 3 then quiet_pass else stop_pass)"

definition samples0 :: "nat \<Rightarrow> uint16" where
  "samples0 k = 0x1100 + word_of_nat k"






section \<open>Properties\<close>

lemma nat_below_9:
  fixes n :: nat
  assumes "n < 9"
  shows "n \<in> {0, 1, 2, 3, 4, 5, 6, 7, 8}"
  using assms by simp arith

lemma byte_below_9:
  fixes c :: byte
  assumes "unat c < 9"
  shows "c \<in> {0, 1, 2, 3, 4, 5, 6, 7, 8}"
proof -
  have c: "c = word_of_nat (unat c)" by simp
  from nat_below_9 [OF assms] show ?thesis
    by (subst c, elim insertE emptyE) simp_all
qed

text \<open>
  C7. From every cursor position in \<open>[0, MENU_SIZE)\<close>, the left transition of
  \<^verbatim>\<open>navMenu\<close> followed by the right transition gives back the menu state it started from;
  this includes the wrap points 0 and \<open>MENU_SIZE - 1\<close>.
\<close>

theorem navMenu_left_right_inverse:
  assumes "unat (counter s) < MENU_SIZE"
  shows "navMenu RIGHT b2 (navMenu LEFT b1 s) = s"
  using byte_below_9 [OF assms]
  by (elim insertE emptyE) (simp_all add: navMenu_def word_le_nat_alt)

theorem navMenu_left_right_inverse_witness:
  "navMenu RIGHT False (navMenu LEFT False \<lparr>counter = 0, dispatched = []\<rparr>)
     = \<lparr>counter = 0, dispatched = []\<rparr>
   \<and> counter (navMenu LEFT False \<lparr>counter = 0, dispatched = []\<rparr>) = 7
   \<and> navMenu RIGHT False (navMenu LEFT False \<lparr>counter = 8, dispatched = []\<rparr>)
     = \<lparr>counter = 8, dispatched = []\<rparr>
   \<and> counter (navMenu LEFT False \<lparr>counter = 8, dispatched = []\<rparr>) = 6"
  using navMenu_left_right_inverse [of "\<lparr>counter = 0, dispatched = []\<rparr>" False False]
    navMenu_left_right_inverse [of "\<lparr>counter = 8, dispatched = []\<rparr>" False False]
  by (simp add: navMenu_def word_le_nat_alt)

text \<open>
  The one write to the menu cursor outside \<^verbatim>\<open>navMenu\<close>: playlist playback leaves
  \<^verbatim>\<open>counter\<close> as it was or, through \<^verbatim>\<open>BACK\<close>, at 0.
\<close>

lemma encoder_counter: "counter (encoder b e s) = counter s"
  by (cases b) (simp_all add: encoder_def adjustVolume_def setVolume_def Let_def)

lemma play_switch_counter:
  "counter (snd (play_switch command (r, s))) = (if command = BACK then 0 else counter s)"
  by (simp add: play_switch_def Let_def adjustVolume_def setVolume_def stopTrack_def)

lemma play_commands_loop_counter:
  assumes "play_commands_loop b ps (r, s) = Inr (r', s')"
  shows "counter s' = counter s \<or> counter s' = 0"
  using assms
proof (induction ps arbitrary: r s)
  case Nil
  then show ?case by (simp split: if_splits)
next
  case (Cons p ps)
  show ?case
  proof (cases "\<not> isPlaying s \<or> track_over p")
    case True
    then show ?thesis using Cons.prems by (auto split: if_splits)
  next
    case False
    let ?next = "play_switch (poll_command b (inp p)) (r, encoder b (enc_pos p) s)"
    from False Cons.prems have "play_commands_loop b ps ?next = Inr (r', s')" by simp
    then have "play_commands_loop b ps (fst ?next, snd ?next) = Inr (r', s')" by simp
    from Cons.IH [OF this] show ?thesis
      by (auto simp: play_switch_counter encoder_counter split: if_splits)
  qed
qed

lemma play_loop_counter:
  assumes "play_loop b env skipped s = Inr s'"
  shows "counter s' = counter s \<or> counter s' = 0"
  using assms
proof (induction env arbitrary: skipped s)
  case Nil
  then show ?case by (simp split: if_splits)
next
  case (Cons a rest)
  show ?case
  proof (cases "playnum s < playlen s")
    case False
    then show ?thesis using Cons.prems by simp
  next
    case True
    let ?s1 = "if \<not> skipped then s\<lparr>playnum := playnum s + 1\<rparr> else s"
    let ?s2 = "?s1\<lparr>opened := opened ?s1 @ [playlist ?s1 ! nat (playnum ?s1)]\<rparr>"
    let ?s3 = "?s2\<lparr>result := play_result a\<rparr>"
    have inb: "\<not> (playnum ?s1 < 0 \<or> int (length (playlist ?s1)) \<le> playnum ?s1)"
      using Cons.prems True by (auto simp: Let_def split: if_splits)
    consider (closed) "\<not> open_ok a \<or> fname a = None"
      | (failed) name where "open_ok a" "fname a = Some name" "play_result a \<noteq> 0"
      | (played) name where "open_ok a" "fname a = Some name" "play_result a = 0"
      by (cases "fname a") auto
    then show ?thesis
    proof cases
      case closed
      then have "play_loop b rest False ?s2 = Inr s'"
        using Cons.prems True inb by (auto simp: Let_def split: if_splits option.splits)
      from Cons.IH [OF this] show ?thesis by (simp split: if_splits)
    next
      case failed
      then have "play_loop b rest False (?s3\<lparr>playnum := playnum ?s3 + 1\<rparr>) = Inr s'"
        using Cons.prems True inb by (auto simp: Let_def split: if_splits)
      from Cons.IH [OF this] show ?thesis by (simp split: if_splits)
    next
      case played
      then obtain sk s4 where cmds: "play_commands b (polls a) (?s3\<lparr>playing_state := playback\<rparr>) = Inr (sk, s4)"
        and "play_loop b rest sk s4 = Inr s'"
        using Cons.prems True inb
        by (auto simp: Let_def split: if_splits sum.splits)
      from play_commands_loop_counter [OF cmds [unfolded play_commands_def]]
      have "counter s4 = counter s \<or> counter s4 = 0" by (simp split: if_splits)
      with Cons.IH [OF \<open>play_loop b rest sk s4 = Inr s'\<close>] show ?thesis by auto
    qed
  qed
qed

lemma play_counter:
  assumes "play b env s = Inr s'"
  shows "counter s' = counter s \<or> counter s' = 0"
  using play_loop_counter [OF assms [unfolded play_def]] by simp

text \<open>
  C8. For every digit \<open>k\<close> below \<open>MENU_SIZE\<close>, \<^verbatim>\<open>navMenu(k)\<close> leaves the cursor at
  \<open>k\<close> and calls \<^verbatim>\<open>parseMenu\<close> once, with \<open>k\<close>: the fall-through into the
  \<^verbatim>\<open>ENTER\<close> case adds one dispatch, not two.
\<close>

theorem navMenu_select_index:
  assumes "unat k < MENU_SIZE"
  shows "counter (navMenu k back s) = k
       \<and> dispatched (navMenu k back s) = dispatched s @ [uint k]"
  using byte_below_9 [OF assms]
  by (elim insertE emptyE) (simp_all add: navMenu_def parseMenu_def Let_def word_le_nat_alt)

theorem navMenu_select_index_witness:
  "counter (navMenu 0 True \<lparr>counter = 5, dispatched = [2]\<rparr>) = 0
   \<and> dispatched (navMenu 0 True \<lparr>counter = 5, dispatched = [2]\<rparr>) = [2, 0]
   \<and> counter (navMenu 8 True \<lparr>counter = 5, dispatched = [2]\<rparr>) = 8
   \<and> dispatched (navMenu 8 True \<lparr>counter = 5, dispatched = [2]\<rparr>) = [2, 8]"
  using navMenu_select_index [of 0 True "\<lparr>counter = 5, dispatched = [2]\<rparr>"]
    navMenu_select_index [of 8 True "\<lparr>counter = 5, dispatched = [2]\<rparr>"]
  by simp

lemma byte1_setVolume: "byte1 (getVolume (setVolume l r s)) = l"
  unfolding byte1_def getVolume_def setVolume_def
  by (simp, rule bit_word_eqI) (auto simp: bit_simps dest: bit_imp_le_length)

lemma byte0_setVolume: "byte0 (getVolume (setVolume l r s)) = r"
  unfolding byte0_def getVolume_def setVolume_def
  by (simp, rule bit_word_eqI) (auto simp: bit_simps)

lemma up_law:
  fixes v :: byte
  assumes "v \<noteq> 3"
  shows "uint (if v \<le> 2 then 2 else v - 2) = max 2 (uint v - 2)"
  using assms by (auto simp: word_le_def uint_sub_if' max_def word_uint_eq_iff)

lemma down_law:
  fixes v :: byte
  assumes "v \<noteq> 253"
  shows "uint (if v \<ge> 254 then 254 else v + 2) = min 254 (uint v + 2)"
  using assms by (auto simp: word_le_def uint_plus_if' min_def word_uint_eq_iff)

text \<open>
  C3 (amended). For every current level \<open>v\<close> (the high byte of the volume register)
  other than 3, a volume-up step sets the level to \<open>max 2 (v - 2)\<close>; for every \<open>v\<close>
  other than 253, a volume-down step sets it to \<open>min 254 (v + 2)\<close>; after either step the
  left and the right channel hold the same value.
\<close>

theorem adjustVolume_law:
  assumes "v = byte1 (getVolume s)"
  shows "(v \<noteq> 3 \<longrightarrow> uint (byte1 (getVolume (adjustVolume True s))) = max 2 (uint v - 2))
       \<and> (v \<noteq> 253 \<longrightarrow> uint (byte1 (getVolume (adjustVolume False s))) = min 254 (uint v + 2))
       \<and> byte0 (getVolume (adjustVolume increase s)) = byte1 (getVolume (adjustVolume increase s))"
proof -
  have up: "byte1 (getVolume (adjustVolume True s)) = (if v \<le> 2 then 2 else v - 2)"
    using assms by (simp add: adjustVolume_def Let_def byte1_setVolume)
  have down: "byte1 (getVolume (adjustVolume False s)) = (if v \<ge> 254 then 254 else v + 2)"
    using assms by (simp add: adjustVolume_def Let_def byte1_setVolume)
  have both: "byte0 (getVolume (adjustVolume increase s))
      = byte1 (getVolume (adjustVolume increase s))"
    by (simp add: adjustVolume_def Let_def byte1_setVolume byte0_setVolume)
  show ?thesis
    unfolding up down using up_law [of v] down_law [of v] both by blast
qed

theorem adjustVolume_law_witness:
  "uint (byte1 (getVolume (adjustVolume True player0))) = 78
   \<and> uint (byte1 (getVolume (adjustVolume False player0))) = 82
   \<and> byte0 (getVolume (adjustVolume True player0)) = 78"
proof -
  have v: "(0x50 :: byte) = byte1 (getVolume player0)"
    by (simp add: player0_def byte1_def getVolume_def)
  from adjustVolume_law [OF v, of True] show ?thesis
    by (simp add: word_uint_eq_iff)
qed

text \<open>
  As stated for every byte the law fails: from 3 a volume-up step gives 1, below the floor
  2, and from 253 a volume-down step gives 255, above the cap 254.
\<close>

lemma byte1_0303: "byte1 (getVolume (player0\<lparr>SCI_VOL := 0x0303\<rparr>)) = 3"
  by (simp add: byte1_def getVolume_def)

lemma byte1_FDFD: "byte1 (getVolume (player0\<lparr>SCI_VOL := 0xFDFD\<rparr>)) = 253"
  by (simp add: byte1_def getVolume_def)

theorem adjustVolume_floor_counterexample:
  "uint (byte1 (getVolume (player0\<lparr>SCI_VOL := 0x0303\<rparr>))) = 3
   \<and> uint (byte1 (getVolume (adjustVolume True (player0\<lparr>SCI_VOL := 0x0303\<rparr>)))) = 1
   \<and> max 2 (3 - 2) = (2::int)
   \<and> uint (byte1 (getVolume (player0\<lparr>SCI_VOL := 0xFDFD\<rparr>))) = 253
   \<and> uint (byte1 (getVolume (adjustVolume False (player0\<lparr>SCI_VOL := 0xFDFD\<rparr>)))) = 255
   \<and> min 254 (253 + 2) = (254::int)"
  by (simp add: adjustVolume_def Let_def byte1_setVolume byte1_0303 byte1_FDFD word_le_nat_alt)

text \<open>
  C4 (amended). For every level \<open>v\<close> before muting with \<open>2 \<le> v < 254\<close>, two
  \<^verbatim>\<open>MUTE\<close> commands in succession set both channels back to \<open>v\<close> and leave the mute
  shadow \<^verbatim>\<open>old_vol\<close> at 0; nothing else of the state changes.
\<close>

theorem mute_unmute_roundtrip:
  assumes "v = byte1 (getVolume s)" and "2 \<le> v" and "v < 254"
  shows "play_switch MUTE (play_switch MUTE (r, s)) = (r, (setVolume v v s)\<lparr>old_vol := 0\<rparr>)
       \<and> byte1 (getVolume (snd (play_switch MUTE (play_switch MUTE (r, s))))) = v
       \<and> byte0 (getVolume (snd (play_switch MUTE (play_switch MUTE (r, s))))) = v
       \<and> old_vol (snd (play_switch MUTE (play_switch MUTE (r, s)))) = 0"
proof -
  have first: "play_switch MUTE (r, s) = (r, setVolume 254 254 (s\<lparr>old_vol := v\<rparr>))"
    using assms by (simp add: play_switch_def Let_def getVolume_def)
  have second: "play_switch MUTE (r, setVolume 254 254 (s\<lparr>old_vol := v\<rparr>))
      = (r, (setVolume v v s)\<lparr>old_vol := 0\<rparr>)"
    using assms by (simp add: play_switch_def Let_def byte1_setVolume) (simp add: setVolume_def)
  have vol: "getVolume ((setVolume v v s)\<lparr>old_vol := 0\<rparr>) = getVolume (setVolume v v s)"
    by (simp add: getVolume_def)
  show ?thesis
    by (simp add: first second vol byte1_setVolume byte0_setVolume)
qed

theorem mute_unmute_roundtrip_witness:
  "play_switch MUTE (play_switch MUTE (False, player0)) = (False, player0)"
proof -
  have v: "(0x50 :: byte) = byte1 (getVolume player0)"
    by (simp add: player0_def byte1_def getVolume_def)
  have same: "(setVolume 0x50 0x50 player0)\<lparr>old_vol := 0\<rparr> = player0"
    by (simp add: player0_def setVolume_def)
  from mute_unmute_roundtrip [OF v, of False] show ?thesis
    by (simp add: same word_le_nat_alt word_less_nat_alt)
qed

text \<open>
  Level 1 is not the silence level 254, yet the second \<^verbatim>\<open>MUTE\<close> finds
  \<^verbatim>\<open>old_vol >= 2\<close> false: the volume stays at 254 and the shadow stays at 1.
\<close>

lemma byte1_0101: "byte1 (getVolume (player0\<lparr>SCI_VOL := 0x0101\<rparr>)) = 1"
  by (simp add: byte1_def getVolume_def)

theorem mute_unmute_counterexample:
  "byte1 (getVolume (player0\<lparr>SCI_VOL := 0x0101\<rparr>)) = 1
   \<and> byte1 (getVolume (snd (play_switch MUTE (play_switch MUTE
         (False, player0\<lparr>SCI_VOL := 0x0101\<rparr>))))) = 254
   \<and> old_vol (snd (play_switch MUTE (play_switch MUTE
         (False, player0\<lparr>SCI_VOL := 0x0101\<rparr>)))) = 1"
proof -
  have first: "play_switch MUTE (False, player0\<lparr>SCI_VOL := 0x0101\<rparr>)
      = (False, setVolume 254 254 (player0\<lparr>SCI_VOL := 0x0101, old_vol := 1\<rparr>))"
    by (simp add: play_switch_def Let_def byte1_0101 word_less_nat_alt)
  have second: "play_switch MUTE (False, setVolume 254 254 (player0\<lparr>SCI_VOL := 0x0101, old_vol := 1\<rparr>))
      = (False, setVolume 254 254 (player0\<lparr>SCI_VOL := 0x0101, old_vol := 1\<rparr>))"
    by (simp add: play_switch_def Let_def byte1_setVolume word_le_nat_alt)
       (simp add: setVolume_def)
  show ?thesis
    by (simp add: first second byte1_setVolume byte1_0101) (simp add: setVolume_def)
qed

text \<open>
  C2. After a track that the codec fails to start, \<^verbatim>\<open>play()\<close> should try the next
  track. It does not: the failure branch advances \<^verbatim>\<open>playnum\<close> and leaves
  \<^verbatim>\<open>skipped\<close> false, so the next pass advances it a second time. With three tracks at
  positions 10, 11, 12 and the first failing to start, the files opened are 10, then 12,
  then the zeroed slot after the playlist; position 11 is never opened.
\<close>

theorem play_failed_start_skips_a_track:
  "play Uno [fails_to_start, plays_to_end, cannot_open] three_tracks
     = Inr (three_tracks\<lparr>playnum := 3, opened := [10, 12, 0]\<rparr>)"
  by (simp add: play_def three_tracks_def fails_to_start_def plays_to_end_def cannot_open_def
      player0_def play_commands_def isPlaying_def no_input_def)

lemma play_switch_down:
  assumes "command = DOWN \<or> command = CH_DOWN"
  shows "play_switch command (r, s) = (True, stopTrack (s\<lparr>playnum := playnum s + 1\<rparr>))"
  using assms by (auto simp: play_switch_def)

lemma play_switch_up:
  assumes "command = UP \<or> command = CH_UP"
  shows "play_switch command (r, s)
     = (True, stopTrack (if playnum s \<noteq> 0 then s\<lparr>playnum := playnum s - 1\<rparr>
                         else s\<lparr>playnum := playlen s - 1\<rparr>))"
  using assms by (auto simp: play_switch_def)

lemma encoder_fields:
  "playnum (encoder b e s) = playnum s" "playlen (encoder b e s) = playlen s"
  "playlist (encoder b e s) = playlist s" "opened (encoder b e s) = opened s"
  "playing_state (encoder b e s) = playing_state s"
  by (cases b; simp add: encoder_def adjustVolume_def setVolume_def Let_def)+

lemma play_commands_loop_down:
  assumes "\<not> track_over p" and "isPlaying s"
    and "poll_command b (inp p) = DOWN \<or> poll_command b (inp p) = CH_DOWN"
  shows "play_commands_loop b (p # ps) (r, s)
     = Inr (True, stopTrack ((encoder b (enc_pos p) s)\<lparr>playnum := playnum s + 1\<rparr>))"
proof -
  have stopped: "\<not> isPlaying (stopTrack t)" for t
    by (simp add: isPlaying_def stopTrack_def)
  show ?thesis
    using assms(1,2)
    by (cases ps) (simp_all add: play_switch_down [OF assms(3)] stopped encoder_fields)
qed

lemma play_loop_exits:
  assumes "\<not> playnum s < playlen s"
  shows "play_loop b env skipped s = Inr s"
  using assms by (cases env) simp_all

text \<open>
  C10. Let \<^verbatim>\<open>playnum = playlen - 1\<close> and let a poll of \<^verbatim>\<open>play_commands\<close> read
  \<^verbatim>\<open>DOWN\<close> or \<^verbatim>\<open>CH_DOWN\<close>. The command sets \<^verbatim>\<open>playnum\<close> to \<^verbatim>\<open>playlen\<close>, sets
  \<^verbatim>\<open>retval\<close> and stops the track; \<^verbatim>\<open>play_commands\<close> returns true at once, and the loop
  of \<^verbatim>\<open>play()\<close> then ends with \<^verbatim>\<open>playnum = playlen\<close> without opening another file (no
  wrap to index 0), whatever observations remain. In particular, when the last track has
  just been started and its first poll reads the command, \<^verbatim>\<open>play()\<close> returns having
  opened that track only. \<^verbatim>\<open>UP\<close> or \<^verbatim>\<open>CH_UP\<close> at \<^verbatim>\<open>playnum = 0\<close> sets \<^verbatim>\<open>playnum\<close> to
  \<^verbatim>\<open>playlen - 1\<close>.
\<close>

theorem skip_forward_on_last_track:
  assumes last: "playnum s = playlen s - 1" and "0 \<le> playnum s"
    and "nat (playnum s) < length (playlist s)"
    and "open_ok a" and "fname a = Some name" and "play_result a = 0"
    and "polls a = p # ps" and quiet: "\<not> track_over p"
    and down: "poll_command b (inp p) = DOWN \<or> poll_command b (inp p) = CH_DOWN"
    and up: "command = UP \<or> command = CH_UP"
  shows "(\<exists>s'. play_loop b (a # rest) True s = Inr s' \<and> playnum s' = playlen s
            \<and> playlen s' = playlen s
            \<and> opened s' = opened s @ [playlist s ! nat (playnum s)])
       \<and> (isPlaying s \<longrightarrow>
            (\<exists>s'. play_commands_loop b (p # ps) (r, s) = Inr (True, s')
               \<and> playnum s' = playlen s \<and> playlen s' = playlen s \<and> opened s' = opened s
               \<and> play_loop b rest True s' = Inr s'))
       \<and> playnum (snd (play_switch (poll_command b (inp p)) (r, s))) = playlen s
       \<and> fst (play_switch (poll_command b (inp p)) (r, s))
       \<and> \<not> isPlaying (snd (play_switch (poll_command b (inp p)) (r, s)))
       \<and> playnum (snd (play_switch command (r, s\<lparr>playnum := 0\<rparr>))) = playlen s - 1"
proof -
  let ?s3 = "s\<lparr>opened := opened s @ [playlist s ! nat (playnum s)], result := play_result a,
     playing_state := playback\<rparr>"
  let ?s4 = "stopTrack ((encoder b (enc_pos p) ?s3)\<lparr>playnum := playnum ?s3 + 1\<rparr>)"
  have cmds: "play_commands b (polls a) ?s3 = Inr (True, ?s4)"
    unfolding \<open>polls a = p # ps\<close> play_commands_def
    by (rule play_commands_loop_down) (use assms in \<open>simp_all add: isPlaying_def\<close>)
  have fields: "playnum ?s4 = playlen s" "playlen ?s4 = playlen s"
    "opened ?s4 = opened s @ [playlist s ! nat (playnum s)]"
    using last by (simp_all add: stopTrack_def encoder_fields)
  have exits: "play_loop b rest True ?s4 = Inr ?s4"
    using fields by (intro play_loop_exits) simp
  have "play_loop b (a # rest) True s = Inr ?s4"
    using assms(1-6) cmds exits by (simp add: Let_def)
  with fields have loop: "\<exists>s'. play_loop b (a # rest) True s = Inr s' \<and> playnum s' = playlen s
            \<and> playlen s' = playlen s
            \<and> opened s' = opened s @ [playlist s ! nat (playnum s)]"
    by blast
  have anytime: "\<exists>s'. play_commands_loop b (p # ps) (r, s) = Inr (True, s')
               \<and> playnum s' = playlen s \<and> playlen s' = playlen s \<and> opened s' = opened s
               \<and> play_loop b rest True s' = Inr s'"
    if playing: "isPlaying s"
  proof -
    let ?t = "stopTrack ((encoder b (enc_pos p) s)\<lparr>playnum := playnum s + 1\<rparr>)"
    have "play_commands_loop b (p # ps) (r, s) = Inr (True, ?t)"
      using quiet playing down by (rule play_commands_loop_down)
    moreover have t: "playnum ?t = playlen s" "playlen ?t = playlen s" "opened ?t = opened s"
      using last by (simp_all add: stopTrack_def encoder_fields)
    moreover have "play_loop b rest True ?t = Inr ?t"
      using t by (intro play_loop_exits) simp
    ultimately show ?thesis by blast
  qed
  have step: "playnum (snd (play_switch (poll_command b (inp p)) (r, s))) = playlen s"
    "fst (play_switch (poll_command b (inp p)) (r, s))"
    "\<not> isPlaying (snd (play_switch (poll_command b (inp p)) (r, s)))"
    using last by (simp_all add: play_switch_down [OF down] stopTrack_def isPlaying_def)
  have wrap: "playnum (snd (play_switch command (r, s\<lparr>playnum := 0\<rparr>))) = playlen s - 1"
    by (simp add: play_switch_up [OF up] stopTrack_def)
  from loop anytime step wrap show ?thesis by blast
qed

theorem skip_forward_on_last_track_witness:
  "(\<exists>s'. play_loop Uno (skipped_forward # [plays_to_end]) True (three_tracks\<lparr>playnum := 2\<rparr>) = Inr s'
        \<and> playnum s' = playlen (three_tracks\<lparr>playnum := 2\<rparr>)
        \<and> playlen s' = playlen (three_tracks\<lparr>playnum := 2\<rparr>)
        \<and> opened s' = opened (three_tracks\<lparr>playnum := 2\<rparr>)
             @ [playlist (three_tracks\<lparr>playnum := 2\<rparr>) ! nat (playnum (three_tracks\<lparr>playnum := 2\<rparr>))])
   \<and> playnum (snd (play_switch (poll_command Uno (inp (hd (polls skipped_forward))))
         (False, three_tracks\<lparr>playnum := 2\<rparr>))) = playlen (three_tracks\<lparr>playnum := 2\<rparr>)
   \<and> playnum (snd (play_switch UP (False, three_tracks\<lparr>playnum := 2, playnum := 0\<rparr>)))
       = playlen (three_tracks\<lparr>playnum := 2\<rparr>) - 1"
proof -
  have "playnum (three_tracks\<lparr>playnum := 2\<rparr>) = playlen (three_tracks\<lparr>playnum := 2\<rparr>) - 1"
    and "0 \<le> playnum (three_tracks\<lparr>playnum := 2\<rparr>)"
    and "nat (playnum (three_tracks\<lparr>playnum := 2\<rparr>)) < length (playlist (three_tracks\<lparr>playnum := 2\<rparr>))"
    and "open_ok skipped_forward" and "fname skipped_forward = Some ''C.MP3''"
    and "play_result skipped_forward = 0"
    and "polls skipped_forward = hd (polls skipped_forward) # []"
    and "\<not> track_over (hd (polls skipped_forward))"
    and "poll_command Uno (inp (hd (polls skipped_forward))) = DOWN
       \<or> poll_command Uno (inp (hd (polls skipped_forward))) = CH_DOWN"
    and "UP = UP \<or> UP = CH_UP"
    by (simp_all add: three_tracks_def player0_def skipped_forward_def poll_command_def
        getRemote_def getSwitches_def)
  from skip_forward_on_last_track [OF this, of "[plays_to_end]" False]
  show ?thesis by blast
qed

lemma openNext_split:
  "openNext dir pos = Some (got, rest, pos') \<Longrightarrow>
     \<exists>passed. dir = passed @ Entry got # rest \<and> pos' = pos + 32 * (length passed + 1)"
proof (induction dir pos rule: openNext.induct)
  case (3 rest0 curPosition)
  then obtain passed where "rest0 = passed @ Entry got # rest"
    and "pos' = curPosition + 32 + 32 * (length passed + 1)" by auto
  then have "Skipped # rest0 = (Skipped # passed) @ Entry got # rest
      \<and> pos' = curPosition + 32 * (length (Skipped # passed) + 1)" by simp
  then show ?case by blast
qed auto

lemma listed_append:
  assumes "listed f dir w"
  shows "listed f (dir @ extra) w"
proof -
  from assms obtain k filename
    where "k < length dir" "dir ! k = Entry (Some filename)" "f filename" "w = word_of_nat k"
    by (auto simp: listed_def)
  then have "k < length (dir @ extra) \<and> (dir @ extra) ! k = Entry (Some filename)
      \<and> f filename \<and> w = word_of_nat k"
    by (simp add: nth_append)
  then show ?thesis unfolding listed_def by blast
qed

lemma createPlaylist_loop_ok:
  assumes "playlist_ok mx f seen s" and "pos = 32 * length seen"
  shows "playlist_ok mx f (seen @ dir) (createPlaylist_loop mx f dir pos s)"
  using assms
proof (induction mx f dir pos s arbitrary: seen rule: createPlaylist_loop.induct)
  case (1 mx f dir pos s)
  have weaker: "playlist_ok mx f (seen @ dir) s"
    using "1.prems"(1) by (auto simp: playlist_ok_def intro: listed_append)
  show ?case
  proof (cases "playlen s < int mx")
    case False
    then show ?thesis using weaker by (subst createPlaylist_loop.simps) simp
  next
    case room: True
    show ?thesis
    proof (cases "openNext dir pos")
      case None
      then show ?thesis using weaker room by (subst createPlaylist_loop.simps) simp
    next
      case (Some r)
      obtain got rest pos' where r: "r = (got, rest, pos')" by (cases r) auto
      from openNext_split [OF Some [unfolded r]] obtain passed
        where dir: "dir = passed @ Entry got # rest"
          and pos': "pos' = pos + 32 * (length passed + 1)" by blast
      let ?seen = "seen @ passed @ [Entry got]"
      let ?s = "case got of None \<Rightarrow> s
                | Some filename \<Rightarrow>
                    if f filename
                    then s\<lparr>playlist := (playlist s)[nat (playlen s) := word_of_nat (pos' div 32 - 1)],
                           playlen := playlen s + 1\<rparr>
                    else s"
      have at: "pos' div 32 - 1 = length seen + length passed"
        using pos' "1.prems"(2) by simp
      have old: "playlist_ok mx f ?seen s"
        using "1.prems"(1) by (auto simp: playlist_ok_def intro: listed_append)
      have ok: "playlist_ok mx f ?seen ?s"
      proof (cases got)
        case None
        then show ?thesis using old by simp
      next
        case (Some filename)
        show ?thesis
        proof (cases "f filename")
          case False
          then show ?thesis using old Some by simp
        next
          case True
          have new: "listed f ?seen (word_of_nat (length seen + length passed))"
            unfolding listed_def
            by (rule exI [of _ "length seen + length passed"])
               (use Some True in \<open>simp add: nth_append\<close>)
          have "listed f ?seen ((playlist s)[nat (playlen s) := word_of_nat (pos' div 32 - 1)] ! i)"
            if "i < nat (playlen s + 1)" for i
          proof (cases "i = nat (playlen s)")
            case True
            have "nat (playlen s) < length (playlist s)"
              using old room by (simp add: playlist_ok_def) arith
            then show ?thesis using True new at by simp
          next
            case False
            then have "i < nat (playlen s)" using that old by (simp add: playlist_ok_def)
            then show ?thesis using old False by (simp add: playlist_ok_def)
          qed
          then show ?thesis
            using old room Some True by (simp add: playlist_ok_def)
        qed
      qed
      have "playlist_ok mx f (?seen @ rest) (createPlaylist_loop mx f rest pos' ?s)"
        by (rule "1.IH" [OF room Some [unfolded r] refl refl ok])
           (use pos' "1.prems"(2) in simp)
      moreover have "createPlaylist_loop mx f dir pos s = createPlaylist_loop mx f rest pos' ?s"
        using room Some r by (subst createPlaylist_loop.simps) simp
      ultimately show ?thesis using dir by simp
    qed
  qed
qed

text \<open>
  C6. After \<^verbatim>\<open>createPlaylist()\<close>, for every directory, every \<^verbatim>\<open>isFnMusic\<close> and either
  build, \<^verbatim>\<open>playlen\<close> is between 0 and \<open>MAX_INDEX\<close>, the array keeps its \<open>MAX_INDEX\<close>
  slots, and every stored entry (index below \<^verbatim>\<open>playlen\<close>) is the position of a directory
  entry whose filename \<^verbatim>\<open>isFnMusic\<close> accepts.
\<close>

theorem createPlaylist_bounded_and_filtered:
  "playlen (createPlaylist b isFnMusic dir s) \<le> int (MAX_INDEX b)
   \<and> 0 \<le> playlen (createPlaylist b isFnMusic dir s)
   \<and> length (playlist (createPlaylist b isFnMusic dir s)) = MAX_INDEX b
   \<and> (\<forall>i < nat (playlen (createPlaylist b isFnMusic dir s)).
         \<exists>k < length dir. \<exists>filename. dir ! k = Entry (Some filename) \<and> isFnMusic filename
           \<and> playlist (createPlaylist b isFnMusic dir s) ! i = word_of_nat k)"
proof -
  have "playlist_ok (MAX_INDEX b) isFnMusic []
      (s\<lparr>playlen := 0, playlist := replicate (MAX_INDEX b) 0\<rparr>)"
    by (simp add: playlist_ok_def)
  from createPlaylist_loop_ok [OF this, of 0 dir]
  show ?thesis by (simp add: createPlaylist_def playlist_ok_def listed_def)
qed

lemma small_volume_run:
  "playlen (createPlaylist Uno audio_names small_volume player0) = 2
   \<and> take 3 (playlist (createPlaylist Uno audio_names small_volume player0)) = [1, 4, 0]"
  by code_simp

theorem createPlaylist_bounded_and_filtered_witness:
  "playlen (createPlaylist Uno audio_names small_volume player0) = 2
   \<and> take 3 (playlist (createPlaylist Uno audio_names small_volume player0)) = [1, 4, 0]
   \<and> length (playlist (createPlaylist Uno audio_names small_volume player0)) = 75"
  using createPlaylist_bounded_and_filtered [of Uno audio_names small_volume player0]
    small_volume_run
  by simp

lemma snprintf_1000: "snprintf_track 1000 ''mp3'' = ''track1000.mp''"
  by code_simp

lemma poll_down_held: "poll_command Uno down_held = DOWN"
  by (simp add: poll_command_def getRemote_def getSwitches_def down_held_def)

lemma poll_enter_held: "poll_command Uno enter_held = ENTER"
  by (simp add: poll_command_def getRemote_def getSwitches_def enter_held_def)

lemma collect_down_held:
  assumes "0 \<le> tracknum" and "tracknum + int n \<le> 1000" and "cnt < 3"
  shows "collect_tracknum Uno (replicate n down_held @ rest) cnt tracknum IRcode
     = collect_tracknum Uno rest cnt (tracknum + int n) IRcode"
  using assms
proof (induction n arbitrary: tracknum)
  case 0
  then show ?case by simp
next
  case (Suc n)
  have quiet: "ir down_held = None" by (simp add: down_held_def)
  have "collect_tracknum Uno (replicate (Suc n) down_held @ rest) cnt tracknum IRcode
      = collect_tracknum Uno (replicate n down_held @ rest) cnt (tracknum + 1) IRcode"
    using Suc.prems by (simp add: Let_def poll_down_held quiet word_le_nat_alt)
  also have "\<dots> = collect_tracknum Uno rest cnt (tracknum + 1 + int n) IRcode"
    using Suc.prems by (intro Suc.IH) simp_all
  also have "tracknum + 1 + int n = tracknum + int (Suc n)" by simp
  finally show ?case .
qed

text \<open>
  C9. The name \<^verbatim>\<open>playTrack()\<close> gives to \<^verbatim>\<open>playMP3\<close> should be \<open>trackNNN.ext\<close> with
  \<open>NNN\<close> from 1 to 999. The step \<^verbatim>\<open>tracknum > 999 ? 0 : tracknum + 1\<close> lets the number go
  from 999 to 1000: with \<^verbatim>\<open>DOWN\<close> read at 1000 polls and \<^verbatim>\<open>ENTER\<close> after them, the number
  is 1000 and the name, cut by \<^verbatim>\<open>snprintf\<close> to 12 characters, is \<open>track1000.mp\<close>.
\<close>

theorem playTrack_reaches_1000:
  "playTrack Uno (replicate 1000 down_held @ [enter_held, enter_held]) 0 = Inr ''track1000.mp''"
proof -
  have "collect_tracknum Uno (replicate 1000 down_held @ [enter_held, enter_held]) 0 0 0
      = collect_tracknum Uno [enter_held, enter_held] 0 (0 + int 1000) 0"
    by (rule collect_down_held) simp_all
  also have "\<dots> = Inr (1000, 0, [enter_held])"
    by (simp add: Let_def poll_enter_held word_le_nat_alt) (simp add: enter_held_def)
  finally have collected: "collect_tracknum Uno (replicate 1000 down_held @ [enter_held, enter_held]) 0 0 0
      = Inr (1000, 0, [enter_held])" .
  have waited: "wait_input Uno [enter_held] 0 = Inr (0, [])"
    by (simp add: enter_held_def getSwitches_def)
  have code: "getcode 0 = 0"
    by (simp add: getcode_def)
  show ?thesis
    unfolding playTrack_def collected
    by (simp add: Let_def waited code snprintf_1000 del: wait_input.simps)
qed

lemma read_group_fields [simp]:
  "rec_state (read_group smp w s) = rec_state s"
  "stop_requests (read_group smp w s) = stop_requests s"
  "file_open (read_group smp w s) = file_open s"
  "consumed (read_group smp w s) = consumed s + w"
  by (simp_all add: read_group_def)

lemma last_word_fields [simp]:
  "rec_state (last_word ob smp s) = 3"
  "stop_requests (last_word ob smp s) = stop_requests s"
  "file_open (last_word ob smp s) = file_open s"
  "consumed (last_word ob smp s) = consumed s + 1"
  by (simp_all add: last_word_def Let_def)

lemma drain_block_waiting:
  "fst (drain_block ob smp wordsWaiting s) = wordsWaiting - min wordsWaiting 256"
  by (simp add: drain_block_def Let_def)

lemma drain_block_stop_requests:
  "stop_requests (snd (drain_block ob smp wordsWaiting s)) = stop_requests s"
  by (simp add: drain_block_def Let_def)

lemma drain_block_file_open:
  "file_open (snd (drain_block ob smp wordsWaiting s)) = file_open s"
  by (simp add: drain_block_def Let_def)

lemma drain_block_state:
  "rec_state (snd (drain_block ob smp wordsWaiting s)) = rec_state s
   \<or> rec_state (snd (drain_block ob smp wordsWaiting s)) = 3"
  by (simp add: drain_block_def Let_def)

lemma drain_block_before_draining:
  assumes "rec_state s < 2" and "256 \<le> wordsWaiting"
  shows "rec_state (snd (drain_block ob smp wordsWaiting s)) = rec_state s"
proof -
  have "rec_state s \<noteq> 2" using assms(1) by auto
  moreover have "min wordsWaiting 256 = 256" using assms(2) by (simp add: min_def)
  ultimately show ?thesis by (simp add: drain_block_def Let_def)
qed

lemma drain_blocks_idle:
  assumes "\<not> (if rec_state s < 2 then 256 else 1) \<le> wordsWaiting"
  shows "drain_blocks ob smp wordsWaiting s = s"
  using assms by (subst drain_blocks.simps) simp

lemma drain_blocks_step:
  assumes "(if rec_state s < 2 then 256 else 1) \<le> wordsWaiting"
  shows "drain_blocks ob smp wordsWaiting s
     = drain_blocks ob smp (fst (drain_block ob smp wordsWaiting s))
         (snd (drain_block ob smp wordsWaiting s))"
  using assms by (subst drain_blocks.simps) simp

lemma drain_blocks_before_draining:
  assumes "rec_state s < 2"
  shows "rec_state (drain_blocks ob smp wordsWaiting s) = rec_state s"
  using assms
proof (induction ob smp wordsWaiting s rule: drain_blocks.induct)
  case (1 ob smp wordsWaiting s)
  show ?case
  proof (cases "(if rec_state s < 2 then 256 else 1) \<le> wordsWaiting")
    case False
    then show ?thesis by (simp add: drain_blocks_idle)
  next
    case True
    then have full: "256 \<le> wordsWaiting" using "1.prems" by simp
    have same: "rec_state (snd (drain_block ob smp wordsWaiting s)) = rec_state s"
      using "1.prems" full by (rule drain_block_before_draining)
    show ?thesis
      using "1.IH" [OF True] "1.prems" same by (simp add: drain_blocks_step [OF True])
  qed
qed

lemma drain_blocks_stop_requests:
  "stop_requests (drain_blocks ob smp wordsWaiting s) = stop_requests s"
proof (induction ob smp wordsWaiting s rule: drain_blocks.induct)
  case (1 ob smp wordsWaiting s)
  show ?case
  proof (cases "(if rec_state s < 2 then 256 else 1) \<le> wordsWaiting")
    case False
    then show ?thesis by (simp add: drain_blocks_idle)
  next
    case True
    show ?thesis
      using "1.IH" [OF True] by (simp add: drain_blocks_step [OF True] drain_block_stop_requests)
  qed
qed

lemma drain_blocks_file_open:
  "file_open (drain_blocks ob smp wordsWaiting s) = file_open s"
proof (induction ob smp wordsWaiting s rule: drain_blocks.induct)
  case (1 ob smp wordsWaiting s)
  show ?case
  proof (cases "(if rec_state s < 2 then 256 else 1) \<le> wordsWaiting")
    case False
    then show ?thesis by (simp add: drain_blocks_idle)
  next
    case True
    show ?thesis
      using "1.IH" [OF True] by (simp add: drain_blocks_step [OF True] drain_block_file_open)
  qed
qed

lemma drain_blocks_not_back:
  assumes "rec_state s \<noteq> 0"
  shows "rec_state (drain_blocks ob smp wordsWaiting s) \<noteq> 0"
  using assms
proof (induction ob smp wordsWaiting s rule: drain_blocks.induct)
  case (1 ob smp wordsWaiting s)
  show ?case
  proof (cases "(if rec_state s < 2 then 256 else 1) \<le> wordsWaiting")
    case False
    then show ?thesis using "1.prems" by (simp add: drain_blocks_idle)
  next
    case True
    have "rec_state (snd (drain_block ob smp wordsWaiting s)) \<noteq> 0"
      using drain_block_state [of ob smp wordsWaiting s] "1.prems" by auto
    then show ?thesis
      using "1.IH" [OF True] by (simp add: drain_blocks_step [OF True])
  qed
qed

lemma drain_pass_quiet:
  assumes "rec_state s = 0" and "\<not> any_input b (panel ob)"
  shows "rec_state (drain_pass b smp ob s) = 0
       \<and> stop_requests (drain_pass b smp ob s) = stop_requests s"
  using assms
  by (simp add: drain_pass_def Let_def drain_blocks_before_draining drain_blocks_stop_requests)

lemma drain_pass_command:
  assumes "rec_state s = 0" and "any_input b (panel ob)"
  shows "rec_state (drain_pass b smp ob s) \<noteq> 0
       \<and> stop_requests (drain_pass b smp ob s) = stop_requests s + 1"
  using assms
  by (simp add: drain_pass_def Let_def drain_blocks_not_back drain_blocks_stop_requests)

lemma drain_pass_later:
  assumes "rec_state s \<noteq> 0"
  shows "rec_state (drain_pass b smp ob s) \<noteq> 0
       \<and> stop_requests (drain_pass b smp ob s) = stop_requests s"
  using assms
  by (simp add: drain_pass_def Let_def drain_blocks_not_back drain_blocks_stop_requests)

lemma after_passes_quiet:
  assumes "rec_state s = 0" and "\<forall>j<n. \<not> any_input b (panel (obs j))"
  shows "rec_state (after_passes b smp obs n s) = 0
       \<and> stop_requests (after_passes b smp obs n s) = stop_requests s"
  using assms(2)
proof (induction n)
  case 0
  then show ?case using assms(1) by simp
next
  case (Suc n)
  then have before: "rec_state (after_passes b smp obs n s) = 0"
    "stop_requests (after_passes b smp obs n s) = stop_requests s" by simp_all
  from Suc.prems have "\<not> any_input b (panel (obs n))" by simp
  from drain_pass_quiet [OF before(1) this, of smp] before(2)
  show ?case by (simp add: Let_def before(1))
qed

lemma after_passes_stopped:
  assumes "rec_state s = 0" and "\<forall>j<k. \<not> any_input b (panel (obs j))"
    and "any_input b (panel (obs k))" and "k < n"
  shows "rec_state (after_passes b smp obs n s) \<noteq> 0
       \<and> stop_requests (after_passes b smp obs n s) = stop_requests s + 1"
  using assms(4)
proof (induction n)
  case 0
  then show ?case by simp
next
  case (Suc n)
  let ?t = "after_passes b smp obs n s"
  show ?case
  proof (cases "k = n")
    case True
    from after_passes_quiet [OF assms(1,2), of smp] True have t: "rec_state ?t = 0"
      "stop_requests ?t = stop_requests s" by simp_all
    from drain_pass_command [OF t(1), of b "obs n" smp] assms(3) True t(2)
    show ?thesis by (simp add: Let_def t(1))
  next
    case False
    then have "k < n" using Suc.prems by simp
    then have t: "rec_state ?t \<noteq> 0" "stop_requests ?t = stop_requests s + 1"
      using Suc.IH by simp_all
    from drain_pass_later [OF t(1), of b smp "obs n"] t
    show ?thesis by (simp add: Let_def)
  qed
qed

text \<open>
  C5. In a recording session that starts in state 0: as long as no pass of the drain loop
  has observed an input, \<^verbatim>\<open>rec_state\<close> is still 0 and no stop request has been written;
  once the first pass that observes an input (an infrared code decodes or a switch reads
  \<^verbatim>\<open>LOW\<close>) has run, \<^verbatim>\<open>rec_state\<close> is never 0 again and exactly one stop request has
  been written, however many passes follow. A single pass from state 0 leaves state 0 if
  and only if it observes an input.
\<close>

theorem stop_requested_once:
  assumes "rec_state s = 0"
  shows "((\<forall>j<n. \<not> any_input b (panel (obs j))) \<longrightarrow>
            rec_state (after_passes b smp obs n s) = 0
            \<and> stop_requests (after_passes b smp obs n s) = stop_requests s)
       \<and> ((\<forall>j<k. \<not> any_input b (panel (obs j))) \<and> any_input b (panel (obs k)) \<and> k < n \<longrightarrow>
            rec_state (after_passes b smp obs n s) \<noteq> 0
            \<and> stop_requests (after_passes b smp obs n s) = stop_requests s + 1)
       \<and> (\<not> any_input b (panel ob) \<longrightarrow> rec_state (drain_pass b smp ob s) = 0)
       \<and> (any_input b (panel ob) \<longrightarrow> rec_state (drain_pass b smp ob s) \<noteq> 0)"
  using after_passes_quiet [OF assms] after_passes_stopped [OF assms]
    drain_pass_quiet [OF assms] drain_pass_command [OF assms]
  by blast

theorem stop_requested_once_witness:
  "rec_state (after_passes Uno samples0 session 3 recorder0) = 0
   \<and> stop_requests (after_passes Uno samples0 session 3 recorder0) = 0
   \<and> rec_state (after_passes Uno samples0 session 4 recorder0) \<noteq> 0
   \<and> stop_requests (after_passes Uno samples0 session 4 recorder0) = 1"
proof -
  have start: "rec_state recorder0 = 0" "stop_requests recorder0 = 0"
    by (simp_all add: recorder0_def)
  have quiet: "\<forall>j<3. \<not> any_input Uno (panel (session j))"
    by (simp add: session_def quiet_pass_def no_input_def any_input_def getSwitches_def)
  have command: "any_input Uno (panel (session 3))"
    by (simp add: session_def stop_pass_def enter_held_def any_input_def getSwitches_def)
  from stop_requested_once [OF start(1),
      where n = 3 and b = Uno and obs = session and smp = samples0 and k = 3] quiet start(2)
  have "rec_state (after_passes Uno samples0 session 3 recorder0) = 0
      \<and> stop_requests (after_passes Uno samples0 session 3 recorder0) = 0"
    by simp
  moreover
  from stop_requested_once [OF start(1),
      where n = 4 and b = Uno and obs = session and smp = samples0 and k = 3] quiet command start(2)
  have "rec_state (after_passes Uno samples0 session 4 recorder0) \<noteq> 0
      \<and> stop_requests (after_passes Uno samples0 session 4 recorder0) = 1"
    by simp
  ultimately show ?thesis by blast
qed

lemma words_bytes_add:
  "words_bytes smp k (m + n) = words_bytes smp k m @ words_bytes smp (k + m) n"
proof -
  have "[0..<m + n] = [0..<m] @ [m..<m + n]"
    by (rule upt_add_eq_append) simp
  moreover have "[m..<m + n] = map (\<lambda>j. j + m) [0..<n]"
    by (simp only: map_add_upt add.commute)
  ultimately have "[0..<m + n] = [0..<m] @ map (\<lambda>j. j + m) [0..<n]" by simp
  then show ?thesis
    by (simp add: words_bytes_def comp_def ac_simps)
qed

lemma read_group_written:
  "written (read_group smp w s) = written s @ words_bytes smp (consumed s) w"
  by (simp add: read_group_def)

lemma last_word_written:
  "written (last_word ob smp s)
     = written s @ byte1 (smp (consumed s))
         # (if aictrl3_second ob AND 4 = 0 then [byte0 (smp (consumed s))] else [])"
  by (simp add: last_word_def Let_def)

lemma drain_block_last:
  fixes wordsWaiting :: uint16
  assumes "rec_state s = 2" and "1 \<le> wordsWaiting" and "wordsWaiting \<le> 256"
  shows "drain_block ob smp wordsWaiting s
     = (0, last_word ob smp
             (read_group smp (unat (ucast ((wordsWaiting - 1) div 2) :: byte))
               (read_group smp (unat (ucast ((wordsWaiting - 1) div 2) :: byte)) s)))"
proof -
  have m: "min wordsWaiting 256 = wordsWaiting" using assms(3) by (simp add: min_def)
  have "unat (wordsWaiting - 1) = unat wordsWaiting - unat (1 :: uint16)"
    using assms(2) by (rule unat_sub)
  moreover have "unat wordsWaiting \<le> 256"
    using assms(3) by (simp add: word_le_nat_alt)
  moreover have "1 \<le> unat wordsWaiting"
    using assms(2) by (simp add: word_le_nat_alt)
  ultimately have "unat (wordsWaiting - 1) < 256" by simp
  then have "wordsWaiting - 1 < 256"
    by (simp add: word_less_nat_alt)
  then show ?thesis
    using assms(1) m by (simp add: drain_block_def Let_def)
qed

lemma drain_block_full:
  fixes wordsWaiting :: uint16
  assumes "rec_state s = 2" and "\<not> wordsWaiting \<le> 256"
  shows "drain_block ob smp wordsWaiting s
     = (wordsWaiting - 256, read_group smp 128 (read_group smp 128 s))"
    and "1 \<le> wordsWaiting - 256"
proof -
  have over: "256 < unat wordsWaiting"
    using assms(2) by (simp add: word_le_nat_alt)
  then have "(256 :: uint16) \<le> wordsWaiting"
    by (simp add: word_le_nat_alt)
  then have "unat (wordsWaiting - 256) = unat wordsWaiting - unat (256 :: uint16)"
    by (rule unat_sub)
  with over have pos: "0 < unat (wordsWaiting - 256)" by simp
  then have nz: "wordsWaiting - 256 \<noteq> 0" by auto
  have m: "min wordsWaiting 256 = 256" using assms(2) by (simp add: min_def)
  show "drain_block ob smp wordsWaiting s
     = (wordsWaiting - 256, read_group smp 128 (read_group smp 128 s))"
    using m nz by (simp add: drain_block_def Let_def)
  show "1 \<le> wordsWaiting - 256"
    using pos by (simp add: word_le_nat_alt)
qed

lemma drain_blocks_draining:
  assumes "rec_state s = 2" and "1 \<le> wordsWaiting"
  shows "rec_state (drain_blocks ob smp wordsWaiting s) = 3
       \<and> (\<exists>n. consumed (drain_blocks ob smp wordsWaiting s) = consumed s + n + 1
            \<and> written (drain_blocks ob smp wordsWaiting s)
                = written s @ words_bytes smp (consumed s) n
                    @ byte1 (smp (consumed s + n))
                      # (if aictrl3_second ob AND 4 = 0 then [byte0 (smp (consumed s + n))] else []))"
  using assms
proof (induction ob smp wordsWaiting s rule: drain_blocks.induct)
  case (1 ob smp wordsWaiting s)
  have guard: "(if rec_state s < 2 then 256 else 1) \<le> wordsWaiting"
    using "1.prems" by simp
  show ?case
  proof (cases "wordsWaiting \<le> 256")
    case True
    let ?w = "unat (ucast ((wordsWaiting - 1) div 2) :: byte)"
    let ?r = "last_word ob smp (read_group smp ?w (read_group smp ?w s))"
    have block: "drain_block ob smp wordsWaiting s = (0, ?r)"
      using "1.prems" True by (rule drain_block_last)
    have "drain_blocks ob smp 0 ?r = ?r"
      by (rule drain_blocks_idle) simp
    then have r: "drain_blocks ob smp wordsWaiting s = ?r"
      by (simp add: drain_blocks_step [OF guard] block)
    have "consumed ?r = consumed s + (?w + ?w) + 1
        \<and> written ?r = written s @ words_bytes smp (consumed s) (?w + ?w)
              @ byte1 (smp (consumed s + (?w + ?w)))
                # (if aictrl3_second ob AND 4 = 0 then [byte0 (smp (consumed s + (?w + ?w)))] else [])"
      by (simp add: last_word_written read_group_written words_bytes_add add.assoc)
    then show ?thesis unfolding r by (intro conjI exI [of _ "?w + ?w"]) simp_all
  next
    case False
    let ?s1 = "read_group smp 128 (read_group smp 128 s)"
    have block: "drain_block ob smp wordsWaiting s = (wordsWaiting - 256, ?s1)"
      and rest: "1 \<le> wordsWaiting - 256"
      using "1.prems"(1) False by (rule drain_block_full)+
    have step: "drain_blocks ob smp wordsWaiting s = drain_blocks ob smp (wordsWaiting - 256) ?s1"
      by (simp add: drain_blocks_step [OF guard] block)
    have two: "rec_state ?s1 = 2" using "1.prems"(1) by simp
    note IH = "1.IH" [OF guard, unfolded block fst_conv snd_conv, OF two rest]
    from IH
obtain n where fin: "rec_state (drain_blocks ob smp (wordsWaiting - 256) ?s1) = 3"
      and cons: "consumed (drain_blocks ob smp (wordsWaiting - 256) ?s1) = consumed ?s1 + n + 1"
      and wr: "written (drain_blocks ob smp (wordsWaiting - 256) ?s1)
                = written ?s1 @ words_bytes smp (consumed ?s1) n
                    @ byte1 (smp (consumed ?s1 + n))
                      # (if aictrl3_second ob AND 4 = 0 then [byte0 (smp (consumed ?s1 + n))] else [])"
      by blast
    have c1: "consumed ?s1 = consumed s + 256" by simp
    have w1: "written ?s1 = written s @ words_bytes smp (consumed s) 256"
      using words_bytes_add [of smp "consumed s" 128 128]
      by (simp add: read_group_written)
    have "consumed (drain_blocks ob smp wordsWaiting s) = consumed s + (256 + n) + 1
        \<and> written (drain_blocks ob smp wordsWaiting s)
            = written s @ words_bytes smp (consumed s) (256 + n)
                @ byte1 (smp (consumed s + (256 + n)))
                  # (if aictrl3_second ob AND 4 = 0 then [byte0 (smp (consumed s + (256 + n)))] else [])"
      unfolding step cons wr c1 w1
      by (simp add: words_bytes_add add.assoc)
    then show ?thesis using fin unfolding step by (intro conjI exI [of _ "256 + n"]) simp_all
  qed
qed

lemma record_loop_done:
  assumes "\<not> rec_state s < 3"
  shows "record_loop b smp obs n s = Some s"
  using assms by (subst record_loop.simps) simp

lemma record_loop_step:
  assumes "rec_state s < 3"
  shows "record_loop b smp obs n s = record_loop b smp obs (n + 1) (drain_pass b smp (obs n) s)"
  using assms by (subst record_loop.simps) simp


lemma drain_pass_draining:
  assumes "rec_state s = 2"
  shows "drain_pass b smp ob s = drain_blocks ob smp (hdat1 ob) s"
  using assms by (simp add: drain_pass_def Let_def)

lemma drain_pass_stop_requested:
  assumes "rec_state s = 1"
  shows "drain_pass b smp ob s
     = (if aictrl3 ob AND 2 \<noteq> 0 then drain_blocks ob smp (hdat1_again ob) (s\<lparr>rec_state := 2\<rparr>)
        else drain_blocks ob smp (hdat1 ob) s)"
  using assms by (simp add: drain_pass_def Let_def)

lemma drain_pass_recording:
  assumes "rec_state s = 0"
  shows "drain_pass b smp ob s
     = (if any_input b (panel ob)
        then drain_pass b smp ob (s\<lparr>rec_state := 1, stop_requests := stop_requests s + 1\<rparr>)
        else drain_blocks ob smp (hdat1 ob) s)"
  using assms by (simp add: drain_pass_def Let_def)

lemma finishes_from_draining:
  assumes "rec_state s = 2" and "n \<le> m" and "1 \<le> hdat1 (obs m)"
  shows "\<exists>r. record_loop b smp obs n s = Some r \<and> rec_state r = 3
           \<and> stop_requests r = stop_requests s \<and> file_open r = file_open s"
  using assms
proof (induction "m - n" arbitrary: n s)
  case 0
  then have "n = m" by simp
  let ?r = "drain_blocks (obs n) smp (hdat1 (obs n)) s"
  have "rec_state ?r = 3"
    using drain_blocks_draining [OF "0.prems"(1), of "hdat1 (obs n)" "obs n" smp] "0.prems"(3) \<open>n = m\<close>
    by simp
  then have "record_loop b smp obs (n + 1) ?r = Some ?r"
    by (intro record_loop_done) simp
  then have "record_loop b smp obs n s = Some ?r"
    using "0.prems"(1) by (simp add: record_loop_step drain_pass_draining)
  then show ?case
    using \<open>rec_state ?r = 3\<close> by (simp add: drain_blocks_stop_requests drain_blocks_file_open)
next
  case (Suc d)
  let ?r = "drain_blocks (obs n) smp (hdat1 (obs n)) s"
  have step: "record_loop b smp obs n s = record_loop b smp obs (n + 1) ?r"
    using Suc.prems(1) by (simp add: record_loop_step drain_pass_draining)
  show ?case
  proof (cases "1 \<le> hdat1 (obs n)")
    case True
    have "rec_state ?r = 3"
      using drain_blocks_draining [OF Suc.prems(1) True, of "obs n" smp] by simp
    then have "record_loop b smp obs (n + 1) ?r = Some ?r"
      by (intro record_loop_done) simp
    then show ?thesis
      using step \<open>rec_state ?r = 3\<close>
      by (simp add: drain_blocks_stop_requests drain_blocks_file_open)
  next
    case False
    then have same: "?r = s"
      using Suc.prems(1) by (intro drain_blocks_idle) simp
    have "d = m - (n + 1)" "n + 1 \<le> m" using Suc.hyps(2) by simp_all
    from Suc.hyps(1) [OF this(1) Suc.prems(1) this(2) Suc.prems(3)]
    show ?thesis using step same by simp
  qed
qed

lemma finishes_at_confirmation:
  assumes "rec_state s = 1" and bit: "aictrl3 (obs n) AND 2 \<noteq> 0"
    and words: "1 \<le> hdat1_again (obs n) \<or> (\<exists>m>n. 1 \<le> hdat1 (obs m))"
  shows "\<exists>r. record_loop b smp obs n s = Some r \<and> rec_state r = 3
           \<and> stop_requests r = stop_requests s \<and> file_open r = file_open s"
proof -
  let ?s2 = "s\<lparr>rec_state := 2\<rparr>"
  let ?r = "drain_blocks (obs n) smp (hdat1_again (obs n)) ?s2"
  have step: "record_loop b smp obs n s = record_loop b smp obs (n + 1) ?r"
    using assms(1) bit by (simp add: record_loop_step drain_pass_stop_requested)
  show ?thesis
  proof (cases "1 \<le> hdat1_again (obs n)")
    case True
    have "rec_state ?r = 3"
      using drain_blocks_draining [of ?s2 "hdat1_again (obs n)" "obs n" smp] True by simp
    then have "record_loop b smp obs (n + 1) ?r = Some ?r"
      by (intro record_loop_done) simp
    then show ?thesis
      using step \<open>rec_state ?r = 3\<close>
      by (simp add: drain_blocks_stop_requests drain_blocks_file_open)
  next
    case False
    then have same: "?r = ?s2" by (intro drain_blocks_idle) simp
    from words False obtain m where "n < m" "1 \<le> hdat1 (obs m)" by blast
    then have "n + 1 \<le> m" by simp
    from finishes_from_draining [of ?s2 "n + 1" m obs b smp] this \<open>1 \<le> hdat1 (obs m)\<close>
    show ?thesis using step same by simp
  qed
qed

lemma finishes_from_stop_requested:
  assumes "rec_state s = 1" and "n \<le> J"
    and waiting: "\<forall>j. n \<le> j \<and> j < J \<longrightarrow> aictrl3 (obs j) AND 2 = 0"
    and confirmed: "aictrl3 (obs J) AND 2 \<noteq> 0"
    and words: "1 \<le> hdat1_again (obs J) \<or> (\<exists>m>J. 1 \<le> hdat1 (obs m))"
  shows "\<exists>r. record_loop b smp obs n s = Some r \<and> rec_state r = 3
           \<and> stop_requests r = stop_requests s \<and> file_open r = file_open s"
  using assms(1-3)
proof (induction "J - n" arbitrary: n s)
  case 0
  then have "n = J" by simp
  with "0.prems"(1) confirmed words show ?case
    by (intro finishes_at_confirmation) simp_all
next
  case (Suc d)
  then have "n < J" by simp
  with Suc.prems(3) have clear: "aictrl3 (obs n) AND 2 = 0" by simp
  let ?r = "drain_blocks (obs n) smp (hdat1 (obs n)) s"
  have step: "record_loop b smp obs n s = record_loop b smp obs (n + 1) ?r"
    using Suc.prems(1) clear by (simp add: record_loop_step drain_pass_stop_requested)
  have r: "rec_state ?r = 1"
    using Suc.prems(1) by (simp add: drain_blocks_before_draining)
  have d: "d = J - (n + 1)" and le: "n + 1 \<le> J" using Suc.hyps(2) by simp_all
  have w: "\<forall>j. n + 1 \<le> j \<and> j < J \<longrightarrow> aictrl3 (obs j) AND 2 = 0"
    using Suc.prems(3) by simp
  from Suc.hyps(1) [OF d r le w]
  show ?case using step by (simp add: drain_blocks_stop_requests drain_blocks_file_open)
qed

lemma finishes_from_recording:
  assumes "rec_state s = 0" and "n \<le> i"
    and quiet: "\<forall>k. n \<le> k \<and> k < i \<longrightarrow> \<not> any_input b (panel (obs k))"
    and command: "any_input b (panel (obs i))"
    and "i \<le> J"
    and waiting: "\<forall>j. i \<le> j \<and> j < J \<longrightarrow> aictrl3 (obs j) AND 2 = 0"
    and confirmed: "aictrl3 (obs J) AND 2 \<noteq> 0"
    and words: "1 \<le> hdat1_again (obs J) \<or> (\<exists>m>J. 1 \<le> hdat1 (obs m))"
  shows "\<exists>r. record_loop b smp obs n s = Some r \<and> rec_state r = 3
           \<and> stop_requests r = stop_requests s + 1 \<and> file_open r = file_open s"
  using assms(1-3)
proof (induction "i - n" arbitrary: n s)
  case 0
  then have "n = i" by simp
  let ?s1 = "s\<lparr>rec_state := 1, stop_requests := stop_requests s + 1\<rparr>"
  have "record_loop b smp obs n s = record_loop b smp obs (n + 1) (drain_pass b smp (obs n) ?s1)"
    using "0.prems"(1) command \<open>n = i\<close> by (simp add: record_loop_step drain_pass_recording)
  also have "\<dots> = record_loop b smp obs n ?s1"
    by (simp add: record_loop_step)
  finally have same: "record_loop b smp obs n s = record_loop b smp obs n ?s1" .
  have "rec_state ?s1 = 1" by simp
  from finishes_from_stop_requested [OF this \<open>i \<le> J\<close> waiting confirmed words, of b smp]
  show ?case using same \<open>n = i\<close> by simp
next
  case (Suc d)
  then have "n < i" by simp
  with Suc.prems(3) have none: "\<not> any_input b (panel (obs n))" by simp
  let ?r = "drain_blocks (obs n) smp (hdat1 (obs n)) s"
  have step: "record_loop b smp obs n s = record_loop b smp obs (n + 1) ?r"
    using Suc.prems(1) none by (simp add: record_loop_step drain_pass_recording)
  have r: "rec_state ?r = 0"
    using Suc.prems(1) by (simp add: drain_blocks_before_draining)
  have d: "d = i - (n + 1)" and le: "n + 1 \<le> i" using Suc.hyps(2) by simp_all
  have q: "\<forall>k. n + 1 \<le> k \<and> k < i \<longrightarrow> \<not> any_input b (panel (obs k))"
    using Suc.prems(3) by simp
  from Suc.hyps(1) [OF d r le q]
  show ?case using step by (simp add: drain_blocks_stop_requests drain_blocks_file_open)
qed

text \<open>
  The same with looser conditions, which need not name the first passes: some pass \<open>i\<close>
  observes an input, the stop bit is reported at some pass \<open>J\<close> from \<open>i\<close> on, and every
  pass up to \<open>J\<close> that reports the stop bit has a word waiting at once or later.
\<close>

lemma finishes_bounded:
  assumes command: "any_input b (panel (obs i))" and "i \<le> J"
    and confirmed: "aictrl3 (obs J) AND 2 \<noteq> 0"
    and words: "\<forall>j\<le>J. aictrl3 (obs j) AND 2 \<noteq> 0 \<longrightarrow>
                  1 \<le> hdat1_again (obs j) \<or> (\<exists>m>j. 1 \<le> hdat1 (obs m))"
    and "rec_state s = 0"
  shows "\<exists>r. record_loop b smp obs 0 s = Some r \<and> rec_state r = 3
           \<and> stop_requests r = stop_requests s + 1 \<and> file_open r = file_open s"
proof -
  define i0 where "i0 = (LEAST k. any_input b (panel (obs k)))"
  have first: "any_input b (panel (obs i0))"
    unfolding i0_def using command by (rule LeastI)
  have "i0 \<le> i" unfolding i0_def using command by (rule Least_le)
  have before: "\<not> any_input b (panel (obs k))" if "k < i0" for k
    using that unfolding i0_def by (rule not_less_Least)
  define J0 where "J0 = (LEAST j. i0 \<le> j \<and> aictrl3 (obs j) AND 2 \<noteq> 0)"
  have some: "i0 \<le> J \<and> aictrl3 (obs J) AND 2 \<noteq> 0"
    using \<open>i0 \<le> i\<close> \<open>i \<le> J\<close> confirmed by simp
  have J0: "i0 \<le> J0 \<and> aictrl3 (obs J0) AND 2 \<noteq> 0"
    unfolding J0_def using some by (rule LeastI)
  have "J0 \<le> J" unfolding J0_def using some by (rule Least_le)
  have clear: "aictrl3 (obs j) AND 2 = 0" if "i0 \<le> j" "j < J0" for j
    using not_less_Least [of j "\<lambda>j. i0 \<le> j \<and> aictrl3 (obs j) AND 2 \<noteq> 0"] that
    unfolding J0_def by blast
  have w: "1 \<le> hdat1_again (obs J0) \<or> (\<exists>m>J0. 1 \<le> hdat1 (obs m))"
    using words \<open>J0 \<le> J\<close> J0 by blast
  show ?thesis
    by (rule finishes_from_recording [where i = i0 and J = J0])
       (use assms(5) before first J0 clear w in auto)
qed










end
